theory Spec2Isabelle
  imports Main "HOL-Library.Monad_Syntax"
begin

section \<open>Constants of proxy.c\<close>

abbreviation MAX_CACHE_SIZE :: int where "MAX_CACHE_SIZE \<equiv> 1049000"
abbreviation MAX_OBJECT_SIZE :: int where "MAX_OBJECT_SIZE \<equiv> 102400"
abbreviation MAXLINE :: nat where "MAXLINE \<equiv> 8192"
abbreviation SBUFSIZE :: int where "SBUFSIZE \<equiv> 16"

section \<open>Results, semaphores\<close>

text \<open>
  Every operation is a function from the state before the call to \<open>Some\<close> of its result
  and the state after it. \<open>None\<close> stands for a call that does not return to its caller
  with a defined result: it blocks for ever on a semaphore (the model is of one thread, so
  nobody else can post), it loops for ever, csapp's wrapper ends the process (a failed
  \<open>Malloc\<close> or \<open>Calloc\<close>), or the C behaviour is undefined (a freed or NULL pointer is
  read, an uninitialised array is read, an array is indexed out of range, a fixed buffer
  overflows, a counter that only grows passes \<open>INT_MAX\<close>).

  Modelled from the spec: csapp's \<open>P\<close> and \<open>V\<close>, which are not part of proxy.c
  (sections 4.A and 4.C: counting semaphores, a caller of \<open>P\<close> blocks while the count is
  zero). A semaphore is its counter; \<open>P\<close> returns only when the counter is positive.
\<close>

type_synonym sem_t = nat

definition P_sem :: "sem_t \<Rightarrow> sem_t option" where
  "P_sem s = (if s = 0 then None else Some (s - 1))"

definition V_sem :: "sem_t \<Rightarrow> sem_t" where
  "V_sem s = Suc s"

section \<open>The cache: blocks on the heap, linked both ways\<close>

text \<open>
  A pointer to a block is \<open>None\<close> (NULL) or \<open>Some a\<close>. The blocks that \<open>Malloc\<close> has
  handed out are the cells of \<open>heap\<close>: cell \<open>a\<close> is \<open>Some b\<close> while the block is
  allocated and \<open>None\<close> after \<open>Free\<close>. \<open>Malloc\<close> returns an address that no block ever
  had (the next cell). \<open>strdup\<close> and \<open>memcpy\<close> copy, so a block holds its uri and its
  content as values. The C \<open>int\<close>s are modelled as \<open>int\<close>; lemma \<open>cache_inv_bounds\<close>
  shows that they stay far from the limits of a 32-bit \<open>int\<close> in every state the program
  reaches.
\<close>

type_synonym addr = nat

record cache_block_t =
  uri :: string
  content :: "char list"
  content_size :: int
  prev :: "addr option"
  "next" :: "addr option"

type_synonym heap_t = "cache_block_t option list"

definition deref :: "heap_t \<Rightarrow> addr \<Rightarrow> cache_block_t option" where
  "deref h a = (if a < length h then h ! a else None)"

record cache_t =
  heap :: heap_t
  head :: "addr option"
  tail :: "addr option"
  current_size :: int
  mutex :: sem_t
  w :: sem_t
  readcnt :: int

definition cache_init :: cache_t where
  "cache_init = \<lparr>heap = [], head = None, tail = None, current_size = 0,
     mutex = 1, w = 1, readcnt = 0\<rparr>"

text \<open>The loop of \<open>cache_find\<close>: \<open>while (block) { if (strcmp(...) == 0) break; block = block->next; }\<close>.
  On a cyclic chain without the uri it never ends.\<close>

partial_function (option) find_loop :: "heap_t \<Rightarrow> string \<Rightarrow> addr option \<Rightarrow> addr option option" where
  "find_loop h u block =
     (case block of
        None \<Rightarrow> Some None
      | Some a \<Rightarrow>
          (case deref h a of
             None \<Rightarrow> None
           | Some b \<Rightarrow> if uri b = u then Some (Some a) else find_loop h u (next b)))"

declare find_loop.simps [code]

definition cache_find :: "string \<Rightarrow> cache_t \<Rightarrow> (addr option \<times> cache_t) option" where
  "cache_find u c =
     do {
       m1 \<leftarrow> P_sem (mutex c);
       let c1 = c\<lparr>mutex := m1, readcnt := readcnt c + 1\<rparr>;
       c2 \<leftarrow> (if readcnt c1 = 1
               then do { w1 \<leftarrow> P_sem (w c1); Some (c1\<lparr>w := w1\<rparr>) }
               else Some c1);
       let c3 = c2\<lparr>mutex := V_sem (mutex c2)\<rparr>;
       block \<leftarrow> find_loop (heap c3) u (head c3);
       m2 \<leftarrow> P_sem (mutex c3);
       let c4 = c3\<lparr>mutex := m2, readcnt := readcnt c3 - 1\<rparr>;
       let c5 = (if readcnt c4 = 0 then c4\<lparr>w := V_sem (w c4)\<rparr> else c4);
       Some (block, c5\<lparr>mutex := V_sem (mutex c5)\<rparr>)
     }"

text \<open>The number of allocated cells: every turn of the eviction loop frees one.\<close>

definition allocated :: "heap_t \<Rightarrow> nat" where
  "allocated h = length (filter (\<lambda>x. x \<noteq> None) h)"

text \<open>One turn of the eviction loop, lines 102 to 114: the block at \<open>tail\<close> is unlinked
  and freed.\<close>

definition evict_tail :: "addr \<Rightarrow> cache_t \<Rightarrow> cache_t option" where
  "evict_tail temp c =
     (case deref (heap c) temp of
        None \<Rightarrow> None
      | Some tb \<Rightarrow>
          do {
            let c1 = c\<lparr>current_size := current_size c - content_size tb\<rparr>;
            c2 \<leftarrow> (case prev tb of
                     None \<Rightarrow> Some c1
                   | Some p \<Rightarrow>
                       (case deref (heap c1) p of
                          None \<Rightarrow> None
                        | Some pb \<Rightarrow> Some (c1\<lparr>heap := (heap c1)[p := Some (pb\<lparr>next := None\<rparr>)]\<rparr>)));
            let c3 = c2\<lparr>tail := prev tb\<rparr>;
            let c4 = (if head c3 = Some temp then c3\<lparr>head := None\<rparr> else c3);
            Some (c4\<lparr>heap := (heap c4)[temp := None]\<rparr>)
          })"

lemma allocated_update_Some:
  "deref h p = Some b \<Longrightarrow> allocated (h[p := Some b']) = allocated h"
proof (induction h arbitrary: p)
  case Nil
  then show ?case by (simp add: deref_def)
next
  case (Cons x h)
  then show ?case
    by (cases p) (auto simp: deref_def allocated_def split: if_splits)
qed

lemma allocated_free:
  "deref h p = Some b \<Longrightarrow> allocated (h[p := None]) < allocated h"
proof (induction h arbitrary: p)
  case Nil
  then show ?case by (simp add: deref_def)
next
  case (Cons x h)
  then show ?case
    by (cases p) (auto simp: deref_def allocated_def split: if_splits)
qed

lemma deref_update:
  "deref (h[p := v]) q = (if q = p \<and> p < length h then v else deref h q)"
  by (simp add: deref_def)

lemma allocated_update_free:
  assumes "deref h temp = Some tb" and "deref h p = Some pb"
  shows "allocated (h[p := Some x, temp := None]) < allocated h"
proof -
  have "\<exists>y. deref (h[p := Some x]) temp = Some y"
    using assms by (auto simp: deref_update)
  then obtain y where "deref (h[p := Some x]) temp = Some y" ..
  then have "allocated (h[p := Some x, temp := None]) < allocated (h[p := Some x])"
    by (rule allocated_free)
  also have "allocated (h[p := Some x]) = allocated h"
    using assms(2) by (rule allocated_update_Some)
  finally show ?thesis .
qed

lemma evict_tail_allocated:
  "evict_tail temp c = Some c' \<Longrightarrow> allocated (heap c') < allocated (heap c)"
  unfolding evict_tail_def
  by (auto simp: Let_def split: option.splits if_splits
        intro: allocated_update_free allocated_free)

function evict_loop :: "int \<Rightarrow> cache_t \<Rightarrow> cache_t option" where
  "evict_loop csize c =
     (if current_size c + csize > MAX_CACHE_SIZE \<and> tail c \<noteq> None then
        (case evict_tail (the (tail c)) c of
           None \<Rightarrow> None
         | Some c' \<Rightarrow> evict_loop csize c')
      else Some c)"
  by pat_completeness auto
termination
  by (relation "measure (\<lambda>(csize, c). allocated (heap c))")
     (auto dest: evict_tail_allocated)

declare evict_loop.simps [simp del]

text \<open>
  \<open>cache_insert(uri, content, content_size)\<close>. \<open>cont\<close> is the bytes of the buffer that
  \<open>content\<close> points to. A negative \<open>content_size\<close> passes the size check and reaches
  \<open>Malloc\<close> as a huge \<open>size_t\<close>, which fails; a \<open>content_size\<close> beyond the buffer
  makes \<open>memcpy\<close> read past it. \<open>Malloc(0)\<close> returns a block, as glibc's does. The two
  small allocations (the block, the copy of the uri) succeed.
\<close>

definition cache_insert :: "string \<Rightarrow> char list \<Rightarrow> int \<Rightarrow> cache_t \<Rightarrow> cache_t option" where
  "cache_insert u cont csize c =
     (if csize > MAX_OBJECT_SIZE then Some c
      else
        do {
          w1 \<leftarrow> P_sem (w c);
          c1 \<leftarrow> evict_loop csize (c\<lparr>w := w1\<rparr>);
          c2 \<leftarrow> (if csize < 0 \<or> nat csize > length cont then None
                  else
                    let new_block = length (heap c1);
                        nb = \<lparr>uri = u, content = take (nat csize) cont, content_size = csize,
                               prev = None, next = head c1\<rparr>;
                        h1 = heap c1 @ [Some nb]
                    in
                      do {
                        h2 \<leftarrow> (case head c1 of
                                 None \<Rightarrow> Some h1
                               | Some a \<Rightarrow>
                                   (case deref h1 a of
                                      None \<Rightarrow> None
                                    | Some hb \<Rightarrow> Some (h1[a := Some (hb\<lparr>prev := Some new_block\<rparr>)])));
                        let c' = c1\<lparr>heap := h2, head := Some new_block\<rparr>;
                        let c'' = (if tail c' = None then c'\<lparr>tail := Some new_block\<rparr> else c');
                        Some (c''\<lparr>current_size := current_size c'' + csize\<rparr>)
                      });
          Some (c2\<lparr>w := V_sem (w c2)\<rparr>)
        })"

text \<open>Sequences of cache operations, run one after the other from a given state.\<close>

datatype cache_op = Insert string "char list" int | Find string

fun apply_op :: "cache_op \<Rightarrow> cache_t \<Rightarrow> cache_t option" where
  "apply_op (Insert u cont csize) c = cache_insert u cont csize c"
| "apply_op (Find u) c = map_option snd (cache_find u c)"

fun run_ops :: "cache_op list \<Rightarrow> cache_t \<Rightarrow> cache_t option" where
  "run_ops [] c = Some c"
| "run_ops (x # xs) c = (case apply_op x c of None \<Rightarrow> None | Some c' \<Rightarrow> run_ops xs c')"

text \<open>\<open>admits u x\<close>: the call \<open>x\<close> is an insert of uri \<open>u\<close> that passes the size check.
  \<open>op_ok x\<close>: the arguments of the call are a buffer and a length it has.\<close>

fun admits :: "string \<Rightarrow> cache_op \<Rightarrow> bool" where
  "admits u (Insert u' cont csize) = (u' = u \<and> csize \<le> MAX_OBJECT_SIZE)"
| "admits u (Find u') = False"

fun op_ok :: "cache_op \<Rightarrow> bool" where
  "op_ok (Insert u cont csize) = (0 \<le> csize \<and> (csize \<le> MAX_OBJECT_SIZE \<longrightarrow> nat csize \<le> length cont))"
| "op_ok (Find u) = True"

text \<open>
  The live entries of a cache are the blocks on the chain that starts at \<open>head\<close> and
  follows \<open>next\<close>. A chain without a cycle visits no more blocks than the heap has cells,
  so that many steps reach its end.
\<close>

fun chain :: "nat \<Rightarrow> heap_t \<Rightarrow> addr option \<Rightarrow> addr list" where
  "chain 0 h p = []"
| "chain (Suc k) h None = []"
| "chain (Suc k) h (Some a) =
     (case deref h a of None \<Rightarrow> [] | Some b \<Rightarrow> a # chain k h (next b))"

definition live :: "cache_t \<Rightarrow> addr list" where
  "live c = chain (length (heap c)) (heap c) (head c)"

definition block_at :: "cache_t \<Rightarrow> addr \<Rightarrow> cache_block_t" where
  "block_at c a = the (deref (heap c) a)"

definition live_blocks :: "cache_t \<Rightarrow> cache_block_t list" where
  "live_blocks c = map (block_at c) (live c)"

text \<open>\<open>guarded ops c\<close>: in the run of \<open>ops\<close> from \<open>c\<close>, every insert is called for a
  uri that no live entry has at that moment, as \<open>doit\<close> calls it after a miss.\<close>

fun guarded :: "cache_op list \<Rightarrow> cache_t \<Rightarrow> bool" where
  "guarded [] c = True"
| "guarded (x # xs) c =
     ((case x of
         Insert u cont csize \<Rightarrow> u \<notin> set (map uri (live_blocks c))
       | Find u \<Rightarrow> True) \<and>
      (case apply_op x c of None \<Rightarrow> True | Some c' \<Rightarrow> guarded xs c'))"

text \<open>
  \<open>dll h pv p as\<close>: from pointer \<open>p\<close> the \<open>next\<close> fields lead through exactly the
  addresses \<open>as\<close> to NULL, every block is allocated, and every \<open>prev\<close> field points
  back (\<open>pv\<close> is what the first block's \<open>prev\<close> holds).
\<close>

fun dll :: "heap_t \<Rightarrow> addr option \<Rightarrow> addr option \<Rightarrow> addr list \<Rightarrow> bool" where
  "dll h pv p [] = (p = None)"
| "dll h pv p (a # as) =
     (p = Some a \<and>
      (case deref h a of
         None \<Rightarrow> False
       | Some b \<Rightarrow> prev b = pv \<and> dll h (Some a) (next b) as))"

text \<open>
  The invariant of the cache between two calls (data model, invariants 1 to 4 without the
  one on duplicates): the list is doubly linked and acyclic with \<open>head\<close> and \<open>tail\<close> at
  its ends, \<open>current_size\<close> is the sum of the sizes and within the budget, every entry has
  as many content bytes as its size says, at most \<open>MAX_OBJECT_SIZE\<close>, and nobody holds a
  semaphore.
\<close>

definition block_ok :: "cache_block_t \<Rightarrow> bool" where
  "block_ok b = (0 \<le> content_size b \<and> content_size b \<le> MAX_OBJECT_SIZE \<and>
                 length (content b) = nat (content_size b))"

definition linked :: "cache_t \<Rightarrow> addr list \<Rightarrow> bool" where
  "linked c ps =
     (distinct ps \<and> dll (heap c) None (head c) ps \<and>
      tail c = (if ps = [] then None else Some (last ps)))"

definition cache_inv :: "cache_t \<Rightarrow> bool" where
  "cache_inv c =
     (linked c (live c) \<and>
      list_all block_ok (live_blocks c) \<and>
      current_size c = sum_list (map content_size (live_blocks c)) \<and>
      current_size c \<le> MAX_CACHE_SIZE \<and>
      mutex c = 1 \<and> w c = 1 \<and> readcnt c = 0)"

text \<open>
  The same without the writer's semaphore, which \<open>cache_insert\<close> holds while it works,
  and with the list of live addresses named: \<open>cache_wf c ps\<close>. An entry is what a block
  holds for the client: uri, content and size.
\<close>

definition cache_wf :: "cache_t \<Rightarrow> addr list \<Rightarrow> bool" where
  "cache_wf c ps =
     (linked c ps \<and>
      list_all (\<lambda>a. block_ok (block_at c a)) ps \<and>
      current_size c = sum_list (map (\<lambda>a. content_size (block_at c a)) ps) \<and>
      mutex c = 1 \<and> readcnt c = 0)"

definition entry :: "cache_block_t \<Rightarrow> string \<times> char list \<times> int" where
  "entry b = (uri b, content b, content_size b)"

definition entries :: "cache_t \<Rightarrow> (string \<times> char list \<times> int) list" where
  "entries c = map entry (live_blocks c)"

section \<open>The hand-off queue\<close>

text \<open>
  \<open>sbuf_t\<close>, with the fields \<open>buf\<close>, \<open>n\<close> and \<open>mutex\<close> written \<open>sb_buf\<close>, \<open>sb_n\<close> and
  \<open>sb_mutex\<close>.
  The array is a list of \<open>n\<close> descriptors. \<open>Calloc\<close> of a negative count
  fails and ends the process.
\<close>

record sbuf_t =
  sb_buf :: "int list"
  sb_n :: int
  front :: int
  rear :: int
  sb_mutex :: sem_t
  slots :: sem_t
  items :: sem_t

abbreviation INT_MAX :: int where "INT_MAX \<equiv> 2147483647"

definition sbuf_init :: "int \<Rightarrow> sbuf_t option" where
  "sbuf_init n =
     (if n < 0 then None
      else Some \<lparr>sb_buf = replicate (nat n) 0, sb_n = n, front = 0, rear = 0,
                  sb_mutex = 1, slots = nat n, items = 0\<rparr>)"

text \<open>C's \<open>%\<close> truncates towards zero; dividing by zero is undefined. The slot
  \<open>buf[r % n]\<close> exists when the remainder is an index of the array.\<close>

definition c_rem :: "int \<Rightarrow> int \<Rightarrow> int" where
  "c_rem a b = sgn a * (\<bar>a\<bar> mod \<bar>b\<bar>)"

definition slot :: "sbuf_t \<Rightarrow> int \<Rightarrow> nat option" where
  "slot sp r =
     (if sb_n sp = 0 then None
      else let i = c_rem r (sb_n sp)
           in if 0 \<le> i \<and> nat i < length (sb_buf sp) then Some (nat i) else None)"

definition sbuf_insert :: "int \<Rightarrow> sbuf_t \<Rightarrow> sbuf_t option" where
  "sbuf_insert item sp =
     do {
       s1 \<leftarrow> P_sem (slots sp);
       m1 \<leftarrow> P_sem (sb_mutex sp);
       let sp1 = sp\<lparr>slots := s1, sb_mutex := m1\<rparr>;
       sp2 \<leftarrow> (if rear sp1 \<ge> INT_MAX then None else Some (sp1\<lparr>rear := rear sp1 + 1\<rparr>));
       i \<leftarrow> slot sp2 (rear sp2);
       let sp3 = sp2\<lparr>sb_buf := (sb_buf sp2)[i := item]\<rparr>;
       let sp4 = sp3\<lparr>sb_mutex := V_sem (sb_mutex sp3)\<rparr>;
       Some (sp4\<lparr>items := V_sem (items sp4)\<rparr>)
     }"

definition sbuf_remove :: "sbuf_t \<Rightarrow> (int \<times> sbuf_t) option" where
  "sbuf_remove sp =
     do {
       i1 \<leftarrow> P_sem (items sp);
       m1 \<leftarrow> P_sem (sb_mutex sp);
       let sp1 = sp\<lparr>items := i1, sb_mutex := m1\<rparr>;
       sp2 \<leftarrow> (if front sp1 \<ge> INT_MAX then None else Some (sp1\<lparr>front := front sp1 + 1\<rparr>));
       i \<leftarrow> slot sp2 (front sp2);
       let item = sb_buf sp2 ! i;
       let sp3 = sp2\<lparr>sb_mutex := V_sem (sb_mutex sp2)\<rparr>;
       Some (item, sp3\<lparr>slots := V_sem (slots sp3)\<rparr>)
     }"

text \<open>A run of inserts, and a run of \<open>k\<close> removes that collects what they return.\<close>

fun sbuf_inserts :: "int list \<Rightarrow> sbuf_t \<Rightarrow> sbuf_t option" where
  "sbuf_inserts [] sp = Some sp"
| "sbuf_inserts (x # xs) sp =
     (case sbuf_insert x sp of None \<Rightarrow> None | Some sp' \<Rightarrow> sbuf_inserts xs sp')"

fun sbuf_removes :: "nat \<Rightarrow> sbuf_t \<Rightarrow> (int list \<times> sbuf_t) option" where
  "sbuf_removes 0 sp = Some ([], sp)"
| "sbuf_removes (Suc k) sp =
     (case sbuf_remove sp of
        None \<Rightarrow> None
      | Some (x, sp') \<Rightarrow>
          (case sbuf_removes k sp' of None \<Rightarrow> None | Some (xs, sp'') \<Rightarrow> Some (x # xs, sp'')))"

text \<open>
  \<open>ring sp q\<close>: the queue holds the descriptors \<open>q\<close>, oldest first, in the slots after
  \<open>front\<close>, up to \<open>rear\<close>; the semaphores count them, and nobody holds the mutex.
\<close>

definition ring :: "sbuf_t \<Rightarrow> int list \<Rightarrow> bool" where
  "ring sp q =
     (0 < sb_n sp \<and> length (sb_buf sp) = nat (sb_n sp) \<and>
      0 \<le> front sp \<and> rear sp = front sp + int (length q) \<and>
      length q \<le> nat (sb_n sp) \<and>
      items sp = length q \<and> slots sp = nat (sb_n sp) - length q \<and> sb_mutex sp = 1 \<and>
      (\<forall>i<length q. sb_buf sp ! nat ((front sp + 1 + int i) mod sb_n sp) = q ! i))"

section \<open>C strings and the buffered reader\<close>

text \<open>
  A byte is a \<open>char\<close>. A C string is the bytes before the first NUL: \<open>cstr\<close> reads a
  buffer the way \<open>strlen\<close>, \<open>strcmp\<close>, \<open>strcat\<close> and \<open>sscanf\<close> do.
\<close>

abbreviation CR :: char where "CR \<equiv> CHR 0x0D"
abbreviation LF :: char where "LF \<equiv> CHR 0x0A"
abbreviation NUL :: char where "NUL \<equiv> CHR 0x00"

definition cstr :: "char list \<Rightarrow> string" where
  "cstr s = takeWhile (\<lambda>c. c \<noteq> NUL) s"

definition isspace :: "char \<Rightarrow> bool" where
  "isspace c = (c \<in> set [CHR 0x20, CHR 0x09, LF, CHR 0x0B, CHR 0x0C, CR])"

definition tolower :: "char \<Rightarrow> char" where
  "tolower c =
     (case map_of (zip ''ABCDEFGHIJKLMNOPQRSTUVWXYZ'' ''abcdefghijklmnopqrstuvwxyz'') c of
        None \<Rightarrow> c
      | Some l \<Rightarrow> l)"

text \<open>\<open>strcasecmp(a, b) == 0\<close> and \<open>strncasecmp(a, b, n) == 0\<close>.\<close>

definition strcasecmp_eq :: "string \<Rightarrow> string \<Rightarrow> bool" where
  "strcasecmp_eq a b = (map tolower a = map tolower b)"

definition strncasecmp_eq :: "string \<Rightarrow> string \<Rightarrow> nat \<Rightarrow> bool" where
  "strncasecmp_eq a b n = (map tolower (take n a) = map tolower (take n b))"

text \<open>\<open>strstr(s, ":")\<close> and \<open>strstr(s, "/")\<close>: the needle is one character, the result
  is the offset of its first occurrence, or NULL.\<close>

definition strstr :: "string \<Rightarrow> char \<Rightarrow> nat option" where
  "strstr s c = (if c \<in> set s then Some (length (takeWhile (\<lambda>x. x \<noteq> c) s)) else None)"

text \<open>\<open>atoi\<close>: white space, an optional sign, then the digits; what follows is ignored.
  A value that no \<open>int\<close> holds is undefined.\<close>

definition isdigit :: "char \<Rightarrow> bool" where
  "isdigit c = (48 \<le> (of_char c :: nat) \<and> (of_char c :: nat) \<le> 57)"

fun digits_val :: "int \<Rightarrow> string \<Rightarrow> int" where
  "digits_val acc [] = acc"
| "digits_val acc (c # cs) =
     (if isdigit c then digits_val (acc * 10 + (int (of_char c) - 48)) cs else acc)"

definition atoi :: "string \<Rightarrow> int option" where
  "atoi s =
     (let s1 = dropWhile isspace s;
          v = (case s1 of
                 [] \<Rightarrow> 0
               | c # cs \<Rightarrow>
                   if c = CHR ''-'' then - digits_val 0 cs
                   else if c = CHR ''+'' then digits_val 0 cs
                   else digits_val 0 s1)
      in if - INT_MAX - 1 \<le> v \<and> v \<le> INT_MAX then Some v else None)"

text \<open>One \<open>%s\<close> of \<open>sscanf\<close>: white space is skipped, the token runs to the next white
  space; at the end of the input nothing is assigned. The three conversions of
  \<open>sscanf(buf, "%s %s %s", method, uri, version)\<close>: \<open>None\<close> is an array left as it was.\<close>

definition scan_s :: "string \<Rightarrow> string option \<times> string" where
  "scan_s s =
     (let s1 = dropWhile isspace s;
          t = takeWhile (\<lambda>c. \<not> isspace c) s1
      in (if t = [] then None else Some t, dropWhile (\<lambda>c. \<not> isspace c) s1))"

definition sscanf3 :: "char list \<Rightarrow> string option \<times> string option \<times> string option" where
  "sscanf3 buf =
     (let r1 = scan_s (cstr buf); r2 = scan_s (snd r1); r3 = scan_s (snd r2)
      in (fst r1, fst r2, fst r3))"

text \<open>
  Modelled from the spec: csapp's buffered reader, which is not part of proxy.c
  (section 6: a line-oriented read returning a non-negative byte count or 0 at EOF; the
  last byte of a line is the newline). A \<open>rio_t\<close> is the bytes not yet read from the
  socket. A call with buffer size \<open>maxlen\<close> hands out at most \<open>maxlen - 1\<close> bytes and stops
  after a newline; the count it returns is the length of what it handed out. Sockets do not
  fail in this model.
\<close>

type_synonym rio_t = "char list"

fun readline :: "nat \<Rightarrow> char list \<Rightarrow> char list \<times> char list" where
  "readline 0 s = ([], s)"
| "readline (Suc k) [] = ([], [])"
| "readline (Suc k) (c # cs) =
     (if c = LF then ([c], cs) else (case readline k cs of (l, r) \<Rightarrow> (c # l, r)))"

definition Rio_readlineb :: "rio_t \<Rightarrow> nat \<Rightarrow> char list \<times> rio_t" where
  "Rio_readlineb rp maxlen = readline (maxlen - 1) rp"

lemma readline_append: "fst (readline k s) @ snd (readline k s) = s"
  by (induction k s rule: readline.induct) (auto split: prod.splits)

lemma Rio_readlineb_shorter:
  "fst (Rio_readlineb rp maxlen) \<noteq> [] \<Longrightarrow> length (snd (Rio_readlineb rp maxlen)) < length rp"
proof -
  assume "fst (Rio_readlineb rp maxlen) \<noteq> []"
  moreover have "length (fst (Rio_readlineb rp maxlen)) + length (snd (Rio_readlineb rp maxlen)) = length rp"
    unfolding Rio_readlineb_def length_append [symmetric] readline_append ..
  ultimately show ?thesis by (cases "fst (Rio_readlineb rp maxlen)") auto
qed

section \<open>parse\_uri\<close>

text \<open>The result is (hostname, pathname, port). In \<open>doit\<close> the uri is a token of a line
  of fewer than \<open>MAXLINE\<close> bytes, so hostname and pathname fit their arrays.\<close>

definition parse_uri :: "string \<Rightarrow> (string \<times> string \<times> int) option" where
  "parse_uri u =
     (let hostbegin = (if strncasecmp_eq u ''http://'' 7 then drop 7 u else u);
          pathname = (case strstr hostbegin CHR ''/'' of
                        Some pathbegin \<Rightarrow> drop pathbegin hostbegin
                      | None \<Rightarrow> ''/'')
      in
        case strstr hostbegin CHR '':'' of
          Some len \<Rightarrow>
            (case atoi (drop (Suc len) hostbegin) of
               None \<Rightarrow> None
             | Some port \<Rightarrow> Some (take len hostbegin, pathname, port))
        | None \<Rightarrow>
            (case strstr hostbegin CHR ''/'' of
               None \<Rightarrow> Some (hostbegin, ''/'', 80)
             | Some len \<Rightarrow> Some (take len hostbegin, pathname, 80)))"

text \<open>
  The parser as the specification words it (section 4.E), to compare with: after the
  optional prefix, a colon before the first slash splits hostname and port; otherwise the
  hostname runs to the first slash, or to the end, and the port is 80; the path starts at
  the first slash, or is \<open>/\<close>.
\<close>

definition parse_uri_spec :: "string \<Rightarrow> (string \<times> string \<times> int) option" where
  "parse_uri_spec u =
     (let rest = (if strncasecmp_eq u ''http://'' 7 then drop 7 u else u);
          before_slash = takeWhile (\<lambda>c. c \<noteq> CHR ''/'') rest;
          path = (if CHR ''/'' \<in> set rest then dropWhile (\<lambda>c. c \<noteq> CHR ''/'') rest else ''/'')
      in
        if CHR '':'' \<in> set before_slash then
          (case atoi (tl (dropWhile (\<lambda>c. c \<noteq> CHR '':'') rest)) of
             None \<Rightarrow> None
           | Some port \<Rightarrow> Some (takeWhile (\<lambda>c. c \<noteq> CHR '':'') rest, path, port))
        else Some (before_slash, path, 80))"

section \<open>The error page and the rewritten request\<close>

text \<open>\<open>sprintf\<close> and \<open>strcat\<close> into a \<open>char[MAXLINE]\<close>: the text and its NUL have to
  fit, a longer text overflows the array.\<close>

definition fits :: "string \<Rightarrow> string option" where
  "fits s = (if length s < MAXLINE then Some s else None)"

abbreviation CRLF :: string where "CRLF \<equiv> [CR, LF]"

definition msg_501 :: string where
  "msg_501 = [CHR 0xEC, CHR 0xA7, CHR 0x80, CHR 0xEC, CHR 0x9B, CHR 0x90, CHR 0xED, CHR 0x95,
     CHR 0x98, CHR 0xEC, CHR 0xA7, CHR 0x80, CHR 0x20, CHR 0xEC, CHR 0x95, CHR 0x8A, CHR 0xEB,
     CHR 0x8A, CHR 0x94, CHR 0x20, CHR 0xEB, CHR 0xA9, CHR 0x94, CHR 0xEC, CHR 0x86, CHR 0x8C,
     CHR 0xEB, CHR 0x93, CHR 0x9C, CHR 0xEC, CHR 0x9E, CHR 0x85, CHR 0xEB, CHR 0x8B, CHR 0x88,
     CHR 0xEB, CHR 0x8B, CHR 0xA4]"

definition msg_503 :: string where
  "msg_503 = [CHR 0xEC, CHR 0x84, CHR 0x9C, CHR 0xEB, CHR 0xB2, CHR 0x84, CHR 0x20, CHR 0xEC,
     CHR 0x97, CHR 0xB0, CHR 0xEA, CHR 0xB2, CHR 0xB0, CHR 0x20, CHR 0xEC, CHR 0x8B, CHR 0xA4,
     CHR 0xED, CHR 0x8C, CHR 0xA8]"

definition title_text :: string where
  "title_text = [CHR 0xED, CHR 0x94, CHR 0x84, CHR 0xEB, CHR 0xA1, CHR 0x9D, CHR 0xEC, CHR 0x8B,
     CHR 0x9C, CHR 0x20, CHR 0xEC, CHR 0x97, CHR 0x90, CHR 0xEB, CHR 0x9F, CHR 0xAC]"

definition footer_text :: string where
  "footer_text = [CHR 0xED, CHR 0x94, CHR 0x84, CHR 0xEB, CHR 0xA1, CHR 0x9D, CHR 0xEC, CHR 0x8B,
     CHR 0x9C, CHR 0x20, CHR 0xEC, CHR 0x84, CHR 0x9C, CHR 0xEB, CHR 0xB2, CHR 0x84]"

text \<open>\<open>clienterror\<close> returns what its seven \<open>Rio_writen\<close> calls write, in order. The
  texts in Korean are the bytes of the source file (UTF-8).\<close>

definition clienterror :: "string \<Rightarrow> string \<Rightarrow> string \<Rightarrow> string \<Rightarrow> string list option" where
  "clienterror cause errnum shortmsg longmsg =
     do {
       b1 \<leftarrow> fits (''HTTP/1.0 '' @ errnum @ '' '' @ shortmsg @ CRLF);
       b2 \<leftarrow> fits (''Content-type: text/html'' @ CRLF @ CRLF);
       b3 \<leftarrow> fits (''<html><title>'' @ title_text @ ''</title>'');
       b4 \<leftarrow> fits (''<body bgcolor=ffffff>'' @ CRLF);
       b5 \<leftarrow> fits (errnum @ '': '' @ shortmsg @ CRLF);
       b6 \<leftarrow> fits (''<p>'' @ longmsg @ '': '' @ cause @ CRLF);
       b7 \<leftarrow> fits (''<hr><em>'' @ footer_text @ ''</em>'' @ CRLF);
       Some [b1, b2, b3, b4, b5, b6, b7]
     }"

definition user_agent_hdr :: string where
  "user_agent_hdr =
     ''User-Agent: Mozilla/5.0 (X11; Linux x86_64; rv:10.0.3) Gecko/20120305 Firefox/10.0.3'' @ CRLF"

text \<open>The loop of \<open>build_requesthdrs\<close> over the client's header lines; the result is
  \<open>newreq\<close>, \<open>host_hdr\<close> and the reader after the loop.\<close>

function hdr_loop :: "rio_t \<Rightarrow> string \<Rightarrow> string \<Rightarrow> (string \<times> string \<times> rio_t) option" where
  "hdr_loop rp newreq host_hdr =
     (let r = Rio_readlineb rp MAXLINE; buf = cstr (fst r) in
      if fst r \<noteq> [] then
        if buf = CRLF then Some (newreq, host_hdr, snd r)
        else if strncasecmp_eq buf ''Host:'' 5 then hdr_loop (snd r) newreq buf
        else if strncasecmp_eq buf ''User-Agent:'' 11 \<or>
                strncasecmp_eq buf ''Connection:'' 11 \<or>
                strncasecmp_eq buf ''Proxy-Connection:'' 17 then hdr_loop (snd r) newreq host_hdr
        else (case fits (newreq @ buf) of
                None \<Rightarrow> None
              | Some newreq' \<Rightarrow> hdr_loop (snd r) newreq' host_hdr)
      else Some (newreq, host_hdr, snd r))"
  by pat_completeness auto
termination
  by (relation "measure (\<lambda>(rp, newreq, host_hdr). length rp)")
     (auto dest: Rio_readlineb_shorter)

declare hdr_loop.simps [simp del]

definition build_requesthdrs :: "rio_t \<Rightarrow> string \<Rightarrow> string \<Rightarrow> (string \<times> rio_t) option" where
  "build_requesthdrs rp hostname pathname =
     do {
       newreq0 \<leftarrow> fits (''GET '' @ pathname @ '' HTTP/1.0'' @ CRLF);
       r \<leftarrow> hdr_loop rp newreq0 [];
       let newreq1 = fst r;
       let host_hdr0 = fst (snd r);
       host_hdr \<leftarrow> (if host_hdr0 = [] then fits (''Host: '' @ hostname @ CRLF) else Some host_hdr0);
       newreq2 \<leftarrow> fits (newreq1 @ host_hdr);
       newreq3 \<leftarrow> fits (newreq2 @ user_agent_hdr);
       newreq4 \<leftarrow> fits (newreq3 @ ''Connection: close'' @ CRLF);
       newreq5 \<leftarrow> fits (newreq4 @ ''Proxy-Connection: close'' @ CRLF @ CRLF);
       Some (newreq5, snd (snd r))
     }"

section \<open>The request handler\<close>

text \<open>
  What \<open>doit\<close> does to the world is the list of its calls on the cache and on the two
  sockets, in program order, and the cache it leaves. The client is the bytes it sends on
  the connection. \<open>origin hostname port\<close> is \<open>Open_clientfd\<close>: \<open>None\<close> when it returns
  a negative descriptor, otherwise the server, a function from the bytes of the request to
  the bytes it answers before it closes; the port is passed as the number that
  \<open>sprintf(port_str, "%d", port)\<close> prints.
\<close>

text \<open>
  \<open>doit\<close> has no defined result when the client closes before it sends a byte
  (\<open>Rio_readlineb\<close> leaves \<open>buf\<close> as it was and \<open>sscanf\<close> reads it), when the
  request line has no method, or a GET has no uri (\<open>strcasecmp\<close> or \<open>cache_find\<close> read
  an array that nothing wrote), and when one of the callees has none.
\<close>

datatype event =
    Cache_find string
  | Open_clientfd string int
  | Write_client "char list"
  | Write_server "char list"
  | Close_server

text \<open>The loop that forwards and stages, lines 218 to 225. \<open>cache_buf\<close> is the staged
  bytes, \<open>cache_size\<close> their number.\<close>

function stream_loop :: "rio_t \<Rightarrow> char list \<Rightarrow> event list \<times> char list" where
  "stream_loop rio_server cache_buf =
     (let r = Rio_readlineb rio_server MAXLINE; buf = fst r; n = length buf in
      if n > 0 then
        let cache_buf' = (if int (length cache_buf) + int n \<le> MAX_OBJECT_SIZE
                          then cache_buf @ buf else cache_buf);
            rest = stream_loop (snd r) cache_buf'
        in (Write_client buf # fst rest, snd rest)
      else ([], cache_buf))"
  by pat_completeness auto
termination
  by (relation "measure (\<lambda>(rio_server, cache_buf). length rio_server)")
     (auto dest: Rio_readlineb_shorter)

declare stream_loop.simps [simp del]

definition doit ::
  "(string \<Rightarrow> int \<Rightarrow> (char list \<Rightarrow> char list) option) \<Rightarrow> char list \<Rightarrow> cache_t \<Rightarrow>
   (event list \<times> cache_t) option" where
  "doit origin client c =
     (let r = Rio_readlineb client MAXLINE; buf = fst r; rio_client = snd r in
      if buf = [] then None
      else
        case sscanf3 buf of
          (None, _, _) \<Rightarrow> None
        | (Some method, uri_tok, version) \<Rightarrow>
            if \<not> strcasecmp_eq method ''GET'' then
              do {
                page \<leftarrow> clienterror method ''501'' ''Not Implemented'' msg_501;
                Some (map Write_client page, c)
              }
            else
              (case uri_tok of
                 None \<Rightarrow> None
               | Some u \<Rightarrow>
                   do {
                     found \<leftarrow> cache_find u c;
                     let c1 = snd found;
                     case fst found of
                       Some cached \<Rightarrow>
                         (case deref (heap c1) cached of
                            None \<Rightarrow> None
                          | Some b \<Rightarrow>
                              if content_size b < 0 \<or> nat (content_size b) > length (content b)
                              then None
                              else Some ([Cache_find u,
                                          Write_client (take (nat (content_size b)) (content b))], c1))
                     | None \<Rightarrow>
                         do {
                           parsed \<leftarrow> parse_uri u;
                           let hostname = fst parsed;
                           let pathname = fst (snd parsed);
                           let port = snd (snd parsed);
                           case origin hostname port of
                             None \<Rightarrow>
                               do {
                                 page \<leftarrow> clienterror hostname ''503'' ''Service Unavailable'' msg_503;
                                 Some (Cache_find u # Open_clientfd hostname port #
                                       map Write_client page, c1)
                               }
                           | Some server \<Rightarrow>
                               do {
                                 built \<leftarrow> build_requesthdrs rio_client hostname pathname;
                                 let newreq = fst built;
                                 let streamed = stream_loop (server newreq) [];
                                 let cache_buf = snd streamed;
                                 let cache_size = int (length cache_buf);
                                 c2 \<leftarrow> (if cache_size \<le> MAX_OBJECT_SIZE
                                         then cache_insert u cache_buf cache_size c1
                                         else Some c1);
                                 Some ([Cache_find u, Open_clientfd hostname port,
                                        Write_server newreq] @ fst streamed @ [Close_server], c2)
                               }
                         }
                   }))"

text \<open>\<open>method_of client\<close> is the method token of the request line the client sends,
  \<open>get_request client u\<close> says that the line is a GET for the uri \<open>u\<close>.\<close>

definition method_of :: "char list \<Rightarrow> string option" where
  "method_of client =
     (let buf = fst (Rio_readlineb client MAXLINE)
      in if buf = [] then None else fst (sscanf3 buf))"

definition get_request :: "char list \<Rightarrow> string \<Rightarrow> bool" where
  "get_request client u =
     (let buf = fst (Rio_readlineb client MAXLINE)
      in buf \<noteq> [] \<and>
         (case sscanf3 buf of
            (Some method, Some u', version) \<Rightarrow> strcasecmp_eq method ''GET'' \<and> u' = u
          | _ \<Rightarrow> False))"

text \<open>Two pieces of the examples below: an origin at \<open>h:80\<close> that accepts the
  connection and closes it without sending a byte, and eleven inserts of 100 KB each
  under the uris \<open>a\<close> to \<open>k\<close>.\<close>

definition silent_origin :: "string \<Rightarrow> int \<Rightarrow> (char list \<Rightarrow> char list) option" where
  "silent_origin hostname port =
     (if hostname = ''h'' \<and> port = 80 then Some (\<lambda>request. []) else None)"

definition eleven_objects :: "cache_op list" where
  "eleven_objects = map (\<lambda>x. Insert [x] (replicate 102400 CHR ''z'') 102400) ''abcdefghijk''"

text \<open>The bytes a run of \<open>doit\<close> sends to the client, and the observations of a trace.\<close>

fun client_bytes :: "event list \<Rightarrow> char list" where
  "client_bytes [] = []"
| "client_bytes (Write_client bs # es) = bs @ client_bytes es"
| "client_bytes (e # es) = client_bytes es"

fun is_probe :: "event \<Rightarrow> bool" where
  "is_probe (Cache_find u) = True"
| "is_probe e = False"

fun is_connect :: "event \<Rightarrow> bool" where
  "is_connect (Open_clientfd h p) = True"
| "is_connect e = False"

section \<open>The cache keeps its invariant\<close>

lemma deref_Some_less: "deref h a = Some b \<Longrightarrow> a < length h"
  by (simp add: deref_def split: if_splits)

lemma deref_append:
  "deref (h @ [x]) a = (if a = length h then x else deref h a)"
  by (auto simp: deref_def nth_append)

lemma dll_allocated: "dll h pv p ps \<Longrightarrow> a \<in> set ps \<Longrightarrow> \<exists>b. deref h a = Some b"
  by (induction ps arbitrary: pv p) (auto split: option.splits)

lemma dll_less: "dll h pv p ps \<Longrightarrow> a \<in> set ps \<Longrightarrow> a < length h"
  by (blast dest: dll_allocated deref_Some_less)

lemma dll_heap_eq:
  "\<forall>a\<in>set ps. deref h' a = deref h a \<Longrightarrow> dll h' pv p ps = dll h pv p ps"
  by (induction ps arbitrary: pv p) (auto split: option.splits)

lemma dll_length_le:
  assumes "dll h pv p ps" and "distinct ps"
  shows "length ps \<le> length h"
proof -
  have "set ps \<subseteq> {..<length h}"
    using assms(1) by (auto dest: dll_less)
  then have "card (set ps) \<le> card {..<length h}"
    by (intro card_mono) auto
  then show ?thesis
    using assms(2) by (simp add: distinct_card)
qed

lemma chain_dll: "dll h pv p ps \<Longrightarrow> length ps \<le> k \<Longrightarrow> chain k h p = ps"
proof (induction ps arbitrary: k pv p)
  case Nil
  then show ?case by (cases k) auto
next
  case (Cons a ps)
  then obtain k' where "k = Suc k'" by (cases k) auto
  with Cons show ?case by (auto split: option.splits)
qed

lemma linked_live: "linked c ps \<Longrightarrow> live c = ps"
  unfolding linked_def live_def
  by (blast intro: chain_dll dll_length_le)

lemma find_loop_dll:
  "dll h pv p ps \<Longrightarrow>
   find_loop h u p = Some (List.find (\<lambda>a. uri (the (deref h a)) = u) ps)"
proof (induction ps arbitrary: pv p)
  case Nil
  then show ?case by (subst find_loop.simps) simp
next
  case (Cons a ps)
  then show ?case
    by (subst find_loop.simps) (auto split: option.splits)
qed

lemma cache_find_frame:
  "cache_find u c = Some (r, c') \<Longrightarrow>
   heap c' = heap c \<and> head c' = head c \<and> tail c' = tail c \<and> current_size c' = current_size c"
  unfolding cache_find_def
  by (auto simp: Let_def split: Option.bind_splits if_splits)

lemma cache_find_linked:
  assumes "linked c ps" and "mutex c = 1" and "w c = 1" and "readcnt c = 0"
  shows "cache_find u c = Some (List.find (\<lambda>a. uri (block_at c a) = u) ps, c)"
proof -
  have "find_loop (heap c) u (head c) = Some (List.find (\<lambda>a. uri (block_at c a) = u) ps)"
    using assms(1) unfolding linked_def block_at_def by (auto dest: find_loop_dll)
  then show ?thesis
    using assms(2-) by (simp add: cache_find_def P_sem_def V_sem_def)
qed


lemma dll_snoc:
  assumes "dll h pv p (qs @ [t])" and "distinct (qs @ [t])"
  shows "\<exists>bt. deref h t = Some bt \<and> next bt = None \<and>
           prev bt = (if qs = [] then pv else Some (last qs)) \<and>
           p = Some (hd (qs @ [t]))"
  using assms
proof (induction qs arbitrary: pv p)
  case Nil
  then show ?case by (auto split: option.splits)
next
  case (Cons a qs)
  from Cons.prems obtain ba where ba: "p = Some a" "deref h a = Some ba" "prev ba = pv"
    and rest: "dll h (Some a) (next ba) (qs @ [t])"
    by (auto split: option.splits)
  from Cons.prems have dist: "distinct (qs @ [t])" by simp
  from Cons.IH [OF rest dist] ba(1) show ?case
    by (cases "qs = []") auto
qed

lemma dll_butlast:
  assumes "dll h pv p (qs @ [t])" and "distinct (qs @ [t])"
  shows "dll (if qs = [] then h[t := None]
              else h[last qs := Some ((the (deref h (last qs)))\<lparr>next := None\<rparr>), t := None])
             pv (if qs = [] then None else p) qs"
  using assms
proof (induction qs arbitrary: pv p)
  case Nil
  then show ?case by simp
next
  case (Cons a qs)
  from Cons.prems obtain ba where ba: "p = Some a" "deref h a = Some ba" "prev ba = pv"
    and rest: "dll h (Some a) (next ba) (qs @ [t])"
    by (auto split: option.splits)
  from Cons.prems have dist: "distinct (qs @ [t])" and a: "a \<notin> set qs" "a \<noteq> t" by auto
  have alen: "a < length h" using ba(2) by (rule deref_Some_less)
  show ?case
  proof (cases "qs = []")
    case True
    then show ?thesis
      using ba a alen by (simp add: deref_update)
  next
    case False
    then have la: "last qs \<noteq> a" using a(1) last_in_set by metis
    have "dll (h[last qs := Some ((the (deref h (last qs)))\<lparr>next := None\<rparr>), t := None])
            (Some a) (next ba) qs"
      using Cons.IH [OF rest dist] False by simp
    then show ?thesis
      using False ba a la by (simp add: deref_update)
  qed
qed


lemma linked_snoc_tail: "linked c (qs @ [t]) \<Longrightarrow> tail c = Some t"
  by (simp add: linked_def)

lemma evict_tail_wf:
  assumes wf: "cache_wf c (qs @ [t])"
  shows "\<exists>c'. evict_tail t c = Some c' \<and> cache_wf c' qs \<and>
           (\<forall>a\<in>set qs. entry (block_at c' a) = entry (block_at c a)) \<and>
           length (heap c') = length (heap c) \<and> w c' = w c \<and>
           current_size c' = current_size c - content_size (block_at c t)"
proof -
  let ?h = "heap c"
  from wf have dll: "dll ?h None (head c) (qs @ [t])" and dist: "distinct (qs @ [t])"
    and tl: "tail c = Some t"
    by (auto simp: cache_wf_def linked_def)
  from dll_snoc [OF dll dist] obtain bt where bt: "deref ?h t = Some bt" "next bt = None"
      "prev bt = (if qs = [] then None else Some (last qs))" "head c = Some (hd (qs @ [t]))"
    by blast
  let ?h' = "if qs = [] then ?h[t := None]
             else ?h[last qs := Some ((the (deref ?h (last qs)))\<lparr>next := None\<rparr>), t := None]"
  let ?c' = "c\<lparr>current_size := current_size c - content_size bt,
              tail := (if qs = [] then None else Some (last qs)),
              head := (if qs = [] then None else head c), heap := ?h'\<rparr>"
  have dll': "dll ?h' None (if qs = [] then None else head c) qs"
    using dll_butlast [OF dll dist] .
  have lastq: "qs \<noteq> [] \<Longrightarrow> \<exists>b. deref ?h (last qs) = Some b"
    using dll_allocated [OF dll, of "last qs"] by auto
  have hd_ne: "qs \<noteq> [] \<Longrightarrow> head c \<noteq> Some t"
    using bt(4) dist by (cases qs) auto
  have ev: "evict_tail t c = Some ?c'"
    using bt lastq hd_ne unfolding evict_tail_def
    by (cases "qs = []") (auto simp: Let_def)
  have blk: "\<And>a. a \<in> set qs \<Longrightarrow> entry (block_at ?c' a) = entry (block_at c a) \<and>
                block_ok (block_at ?c' a) = block_ok (block_at c a) \<and>
                content_size (block_at ?c' a) = content_size (block_at c a)"
  proof -
    fix a assume a: "a \<in> set qs"
    then have "a \<noteq> t" "qs \<noteq> []" using dist by auto
    moreover obtain b where "deref ?h a = Some b"
      using dll_allocated [OF dll, of a] a by auto
    ultimately show "entry (block_at ?c' a) = entry (block_at c a) \<and>
                block_ok (block_at ?c' a) = block_ok (block_at c a) \<and>
                content_size (block_at ?c' a) = content_size (block_at c a)"
      by (auto simp: block_at_def deref_update entry_def block_ok_def)
  qed
  have "linked ?c' qs"
    using dll' dist by (simp add: linked_def)
  moreover have "list_all (\<lambda>a. block_ok (block_at ?c' a)) qs"
    using wf blk by (auto simp: cache_wf_def list_all_iff)
  moreover have "sum_list (map (\<lambda>a. content_size (block_at ?c' a)) qs)
                 = sum_list (map (\<lambda>a. content_size (block_at c a)) qs)"
    using blk by (intro arg_cong [where f = sum_list] map_cong) auto
  then have "current_size ?c' = sum_list (map (\<lambda>a. content_size (block_at ?c' a)) qs)"
    using wf bt(1) by (simp add: cache_wf_def block_at_def)
  moreover have "mutex ?c' = 1" "readcnt ?c' = 0"
    using wf by (auto simp: cache_wf_def)
  ultimately have "cache_wf ?c' qs"
    unfolding cache_wf_def by blast
  with ev blk bt(1) show ?thesis
    by (intro exI [of _ ?c']) (auto simp: block_at_def)
qed


lemma evict_loop_wf:
  assumes "cache_wf c ps"
  shows "\<exists>c' ps' k. evict_loop n c = Some c' \<and> ps' = take k ps \<and> cache_wf c' ps' \<and>
           (\<forall>a\<in>set ps'. entry (block_at c' a) = entry (block_at c a)) \<and>
           length (heap c') = length (heap c) \<and> w c' = w c \<and>
           (current_size c' + n \<le> MAX_CACHE_SIZE \<or> ps' = [])"
  using assms
proof (induction ps arbitrary: c rule: rev_induct)
  case Nil
  then have "tail c = None" by (simp add: cache_wf_def linked_def)
  then have "evict_loop n c = Some c" by (subst evict_loop.simps) simp
  with Nil show ?case by (intro exI [of _ c] exI [of _ "[]"]) simp
next
  case (snoc t qs)
  then have tl: "tail c = Some t" by (simp add: cache_wf_def linked_def)
  show ?case
  proof (cases "current_size c + n > MAX_CACHE_SIZE")
    case False
    then have "evict_loop n c = Some c" by (subst evict_loop.simps) simp
    with False snoc.prems show ?thesis
      by (intro exI [of _ c] exI [of _ "qs @ [t]"] exI [of _ "length (qs @ [t])"]) simp
  next
    case True
    from evict_tail_wf [OF snoc.prems] obtain c1 where c1: "evict_tail t c = Some c1"
      "cache_wf c1 qs" "\<forall>a\<in>set qs. entry (block_at c1 a) = entry (block_at c a)"
      "length (heap c1) = length (heap c)" "w c1 = w c"
      by blast
    from snoc.IH [OF c1(2)] obtain c' ps' k where c': "evict_loop n c1 = Some c'"
      "ps' = take k qs" "cache_wf c' ps'"
      "\<forall>a\<in>set ps'. entry (block_at c' a) = entry (block_at c1 a)"
      "length (heap c') = length (heap c1)" "w c' = w c1"
      "current_size c' + n \<le> MAX_CACHE_SIZE \<or> ps' = []"
      by blast
    have ev: "evict_loop n c = Some c'"
      using True tl c1(1) c'(1) by (subst evict_loop.simps) simp
    have "take (min k (length qs)) (qs @ [t]) = take k qs"
      by (cases "k \<le> length qs") (simp_all add: min_def)
    then have tk: "\<exists>k'. ps' = take k' (qs @ [t])" using c'(2) by metis
    have "\<forall>a\<in>set ps'. entry (block_at c' a) = entry (block_at c a)"
      using c'(2,4) c1(3) by (auto dest: in_set_takeD)
    with ev c'(3,5,6,7) c1(4,5) tk show ?thesis
      by (intro exI [of _ c'] exI [of _ ps']) simp
  qed
qed


lemma cache_wf_w_update [simp]: "cache_wf (c\<lparr>w := x\<rparr>) ps = cache_wf c ps"
  by (simp add: cache_wf_def linked_def block_at_def)

lemma dll_push:
  assumes "dll h None p ps" and "distinct ps"
  shows "dll (case p of None \<Rightarrow> h @ [x]
              | Some a \<Rightarrow> (h @ [x])[a := Some ((the (deref (h @ [x]) a))\<lparr>prev := Some (length h)\<rparr>)])
             (Some (length h)) p ps"
proof (cases ps)
  case Nil
  with assms show ?thesis by simp
next
  case (Cons a as)
  with assms obtain ba where ba: "p = Some a" "deref h a = Some ba" "prev ba = None"
    and rest: "dll h (Some a) (next ba) as"
    by (auto split: option.splits)
  let ?h2 = "(h @ [x])[a := Some ((the (deref (h @ [x]) a))\<lparr>prev := Some (length h)\<rparr>)]"
  have alen: "a < length h" using ba(2) by (rule deref_Some_less)
  have "\<forall>a'\<in>set as. deref ?h2 a' = deref h a'"
  proof
    fix a' assume "a' \<in> set as"
    then have "a' \<noteq> a" "a' < length h"
      using assms(2) Cons dll_less [OF rest] by auto
    then show "deref ?h2 a' = deref h a'"
      by (simp add: deref_update deref_append)
  qed
  from dll_heap_eq [OF this] have "dll ?h2 (Some a) (next ba) as"
    using rest by simp
  then show ?thesis
    using ba alen Cons by (simp add: deref_update deref_append)
qed

lemma cache_insert_wf:
  assumes wf: "cache_wf c ps" and w: "w c = 1"
    and n: "0 \<le> n" "n \<le> MAX_OBJECT_SIZE" "nat n \<le> length B"
  shows "\<exists>c' ps' k. cache_insert u B n c = Some c' \<and> ps' = take k ps \<and>
           cache_wf c' (length (heap c) # ps') \<and> w c' = 1 \<and>
           entry (block_at c' (length (heap c))) = (u, take (nat n) B, n) \<and>
           (\<forall>a\<in>set ps'. entry (block_at c' a) = entry (block_at c a)) \<and>
           current_size c' \<le> MAX_CACHE_SIZE \<and> head c' = Some (length (heap c)) \<and>
           length (heap c') = Suc (length (heap c))"
proof -
  let ?c0 = "c\<lparr>w := 0\<rparr>"
  have "cache_wf ?c0 ps" using wf by simp
  from evict_loop_wf [OF this, of n] obtain c1 ps' k where c1: "evict_loop n ?c0 = Some c1"
    "ps' = take k ps" "cache_wf c1 ps'"
    "\<forall>a\<in>set ps'. entry (block_at c1 a) = entry (block_at ?c0 a)"
    "length (heap c1) = length (heap ?c0)" "w c1 = w ?c0"
    "current_size c1 + n \<le> MAX_CACHE_SIZE \<or> ps' = []"
    by blast
  let ?nb = "length (heap c1)"
  let ?blk = "\<lparr>uri = u, content = take (nat n) B, content_size = n, prev = None, next = head c1\<rparr>"
  let ?h1 = "heap c1 @ [Some ?blk]"
  let ?h2 = "case head c1 of None \<Rightarrow> ?h1
             | Some a \<Rightarrow> ?h1[a := Some ((the (deref ?h1 a))\<lparr>prev := Some ?nb\<rparr>)]"
  let ?c' = "c1\<lparr>heap := ?h2, head := Some ?nb,
               tail := (if tail c1 = None then Some ?nb else tail c1),
               current_size := current_size c1 + n, w := 1\<rparr>"
  from c1(3) have dll1: "dll (heap c1) None (head c1) ps'" and dist: "distinct ps'"
    and tl1: "tail c1 = (if ps' = [] then None else Some (last ps'))"
    and sz1: "current_size c1 = sum_list (map (\<lambda>a. content_size (block_at c1 a)) ps')"
    and ok1: "list_all (\<lambda>a. block_ok (block_at c1 a)) ps'"
    and sem1: "mutex c1 = 1" "readcnt c1 = 0"
    by (auto simp: cache_wf_def linked_def)
  have lt: "\<And>a. a \<in> set ps' \<Longrightarrow> a < ?nb"
    using dll_less [OF dll1] by simp
  have hd_alloc: "\<And>a. head c1 = Some a \<Longrightarrow> \<exists>b. deref ?h1 a = Some b"
  proof -
    fix a assume "head c1 = Some a"
    with dll1 have "a \<in> set ps'" by (cases ps') auto
    then show "\<exists>b. deref ?h1 a = Some b"
      using dll_allocated [OF dll1, of a] lt [of a] by (auto simp: deref_append)
  qed
  have w1: "w c1 = 0" using c1(6) by simp
  have ins: "cache_insert u B n c = Some ?c'"
    using n w c1(1) hd_alloc unfolding cache_insert_def
    by (cases "head c1") (auto simp: P_sem_def V_sem_def Let_def w1)
  have dll2: "dll ?h2 (Some ?nb) (head c1) ps'"
    using dll_push [OF dll1 dist] .
  have new: "deref ?h2 ?nb = Some ?blk"
  proof (cases "head c1")
    case None
    then show ?thesis by (simp add: deref_append)
  next
    case (Some a)
    with dll1 have "a \<in> set ps'" by (cases ps') auto
    then have "a \<noteq> ?nb" using lt by blast
    with Some show ?thesis by (simp add: deref_update deref_append)
  qed
  have old: "\<And>a. a \<in> set ps' \<Longrightarrow> entry (block_at ?c' a) = entry (block_at c1 a) \<and>
               block_ok (block_at ?c' a) = block_ok (block_at c1 a) \<and>
               content_size (block_at ?c' a) = content_size (block_at c1 a)"
  proof -
    fix a assume a: "a \<in> set ps'"
    then obtain b where b: "deref (heap c1) a = Some b"
      using dll_allocated [OF dll1] by blast
    with lt [OF a] show "entry (block_at ?c' a) = entry (block_at c1 a) \<and>
               block_ok (block_at ?c' a) = block_ok (block_at c1 a) \<and>
               content_size (block_at ?c' a) = content_size (block_at c1 a)"
      by (cases "head c1")
         (auto simp: block_at_def deref_update deref_append entry_def block_ok_def)
  qed
  have nb_notin: "?nb \<notin> set ps'" using lt by blast
  have "linked ?c' (?nb # ps')"
    using dll2 new dist nb_notin tl1 by (simp add: linked_def)
  moreover have "list_all (\<lambda>a. block_ok (block_at ?c' a)) (?nb # ps')"
    using ok1 old new n by (auto simp: list_all_iff block_at_def block_ok_def)
  moreover have "sum_list (map (\<lambda>a. content_size (block_at ?c' a)) ps')
               = sum_list (map (\<lambda>a. content_size (block_at c1 a)) ps')"
    using old by (intro arg_cong [where f = sum_list] map_cong) auto
  then have "current_size ?c' = sum_list (map (\<lambda>a. content_size (block_at ?c' a)) (?nb # ps'))"
    using sz1 new by (simp add: block_at_def)
  moreover have "mutex ?c' = 1" "readcnt ?c' = 0" using sem1 by auto
  ultimately have wf': "cache_wf ?c' (?nb # ps')"
    unfolding cache_wf_def by blast
  have "ps' = [] \<Longrightarrow> current_size c1 = 0" using sz1 by simp
  then have bound: "current_size ?c' \<le> MAX_CACHE_SIZE"
    using c1(7) n by auto
  have ent: "entry (block_at ?c' ?nb) = (u, take (nat n) B, n)"
    using new by (simp add: block_at_def entry_def)
  have olds: "\<forall>a\<in>set ps'. entry (block_at ?c' a) = entry (block_at c a)"
    using old c1(4) by (simp add: block_at_def)
  have len1: "length (heap c1) = length (heap c)" using c1(5) by simp
  have len: "length (heap ?c') = Suc (length (heap c))"
    using len1 by (cases "head c1") auto
  show ?thesis
    using ins c1(2) wf' ent olds bound len unfolding len1 [symmetric]
    by (intro exI [of _ ?c'] exI [of _ ps'] exI [of _ k]) simp
qed


lemma cache_wf_live: "cache_wf c ps \<Longrightarrow> live c = ps"
  by (simp add: cache_wf_def linked_live)

lemma cache_inv_iff:
  "cache_inv c \<longleftrightarrow> cache_wf c (live c) \<and> current_size c \<le> MAX_CACHE_SIZE \<and> w c = 1"
  by (auto simp: cache_inv_def cache_wf_def live_blocks_def list_all_iff comp_def)

lemma cache_invI:
  "cache_wf c ps \<Longrightarrow> current_size c \<le> MAX_CACHE_SIZE \<Longrightarrow> w c = 1 \<Longrightarrow> cache_inv c"
  using cache_wf_live [of c ps] by (simp add: cache_inv_iff)

lemma entries_wf: "cache_wf c ps \<Longrightarrow> entries c = map (\<lambda>a. entry (block_at c a)) ps"
  by (simp add: entries_def live_blocks_def cache_wf_live)

lemma cache_init_inv: "cache_inv cache_init"
  by (simp add: cache_inv_def cache_init_def live_def live_blocks_def linked_def)

lemma entries_cache_init: "entries cache_init = []"
  by (simp add: entries_def cache_init_def live_def live_blocks_def)

lemma cache_insert_inv:
  assumes inv: "cache_inv c" and n: "0 \<le> n" "n \<le> MAX_OBJECT_SIZE" "nat n \<le> length B"
  shows "\<exists>c' k. cache_insert u B n c = Some c' \<and> cache_inv c' \<and>
           entries c' = (u, take (nat n) B, n) # take k (entries c) \<and>
           live c' = length (heap c) # take k (live c) \<and>
           head c' = Some (length (heap c))"
proof -
  from inv have wf: "cache_wf c (live c)" and w: "w c = 1"
    by (simp_all add: cache_inv_iff)
  from cache_insert_wf [OF wf w n, of u] obtain c' ps' k where c':
    "cache_insert u B n c = Some c'" "ps' = take k (live c)"
    "cache_wf c' (length (heap c) # ps')" "w c' = 1"
    "entry (block_at c' (length (heap c))) = (u, take (nat n) B, n)"
    "\<forall>a\<in>set ps'. entry (block_at c' a) = entry (block_at c a)"
    "current_size c' \<le> MAX_CACHE_SIZE" "head c' = Some (length (heap c))"
    by blast
  have "cache_inv c'" using c'(3,7,4) by (rule cache_invI)
  moreover have "map (\<lambda>a. entry (block_at c' a)) ps' = map (\<lambda>a. entry (block_at c a)) ps'"
    using c'(6) by (intro map_cong) auto
  then have "entries c' = (u, take (nat n) B, n) # take k (entries c)"
    using c'(2,5) by (simp add: entries_wf [OF c'(3)] entries_wf [OF wf] take_map)
  moreover have "live c' = length (heap c) # take k (live c)"
    using cache_wf_live [OF c'(3)] c'(2) by simp
  ultimately show ?thesis using c'(1,8) by blast
qed

lemma cache_find_inv:
  "cache_inv c \<Longrightarrow>
   cache_find u c = Some (List.find (\<lambda>a. uri (block_at c a) = u) (live c), c)"
  by (simp add: cache_inv_iff cache_wf_def cache_find_linked)

lemma cache_insert_Some_size:
  "cache_insert u B n c = Some c' \<Longrightarrow> n \<le> MAX_OBJECT_SIZE \<Longrightarrow> 0 \<le> n \<and> nat n \<le> length B"
  unfolding cache_insert_def
  by (auto split: Option.bind_splits if_splits)

lemma apply_op_inv:
  assumes "cache_inv c" and "apply_op x c = Some c'"
  shows "cache_inv c' \<and>
         (entries c' = entries c \<or>
          (\<exists>u B n k. x = Insert u B n \<and> n \<le> MAX_OBJECT_SIZE \<and>
             entries c' = (u, take (nat n) B, n) # take k (entries c)))"
proof (cases x)
  case (Find u)
  with assms show ?thesis by (simp add: cache_find_inv)
next
  case (Insert u B n)
  show ?thesis
  proof (cases "n > MAX_OBJECT_SIZE")
    case True
    with assms Insert show ?thesis by (simp add: cache_insert_def)
  next
    case False
    then have le: "n \<le> MAX_OBJECT_SIZE" by simp
    from assms(2) Insert have ins: "cache_insert u B n c = Some c'" by simp
    from cache_insert_Some_size [OF ins le] have n: "0 \<le> n" "nat n \<le> length B" by auto
    from cache_insert_inv [OF assms(1) n(1) le n(2), of u] ins Insert le show ?thesis
      by auto
  qed
qed

lemma run_ops_inv: "cache_inv c \<Longrightarrow> run_ops ops c = Some c' \<Longrightarrow> cache_inv c'"
  by (induction ops arbitrary: c) (auto split: option.splits dest: apply_op_inv)

text \<open>Every state that calls of \<open>cache_find\<close> and \<open>cache_insert\<close> produce from
  \<open>cache_init\<close> satisfies the invariant.\<close>

lemma reachable_inv: "run_ops ops cache_init = Some c \<Longrightarrow> cache_inv c"
  using cache_init_inv by (rule run_ops_inv)

lemma cache_inv_bounds:
  assumes "cache_inv c"
  shows "0 \<le> current_size c \<and> current_size c \<le> MAX_CACHE_SIZE \<and>
         (\<forall>b\<in>set (live_blocks c). 0 \<le> content_size b \<and> content_size b \<le> MAX_OBJECT_SIZE)"
proof -
  from assms have ok: "\<forall>b\<in>set (live_blocks c). block_ok b"
    and sz: "current_size c = sum_list (map content_size (live_blocks c))"
    and le: "current_size c \<le> MAX_CACHE_SIZE"
    by (auto simp: cache_inv_def list_all_iff)
  have "0 \<le> sum_list (map content_size (live_blocks c))"
    using ok by (intro sum_list_nonneg) (auto simp: block_ok_def)
  with ok sz le show ?thesis by (auto simp: block_ok_def)
qed

lemma uris_entries: "map uri (live_blocks c) = map fst (entries c)"
  by (simp add: entries_def entry_def comp_def)

lemma sizes_entries: "map content_size (live_blocks c) = map (\<lambda>e. snd (snd e)) (entries c)"
  by (simp add: entries_def entry_def comp_def)

lemma cache_find_miss_iff:
  assumes "cache_inv c"
  shows "cache_find u c = Some (None, c) \<longleftrightarrow> u \<notin> set (map uri (live_blocks c))"
  using assms
  by (auto simp: cache_find_inv find_None_iff live_blocks_def)

lemma run_ops_uris:
  assumes "cache_inv c0" and "run_ops ops c0 = Some c" and "u \<in> set (map uri (live_blocks c))"
  shows "u \<in> set (map uri (live_blocks c0)) \<or> list_ex (admits u) ops"
  using assms
proof (induction ops arbitrary: c0)
  case Nil
  then show ?case by simp
next
  case (Cons x ops)
  then obtain c1 where c1: "apply_op x c0 = Some c1" "run_ops ops c1 = Some c"
    by (auto split: option.splits)
  from apply_op_inv [OF Cons.prems(1) c1(1)] have inv1: "cache_inv c1"
    and ent: "entries c1 = entries c0 \<or>
          (\<exists>u B n k. x = Insert u B n \<and> n \<le> MAX_OBJECT_SIZE \<and>
             entries c1 = (u, take (nat n) B, n) # take k (entries c0))"
    by auto
  from Cons.IH [OF inv1 c1(2) Cons.prems(3)]
  have "u \<in> set (map uri (live_blocks c1)) \<or> list_ex (admits u) ops" .
  then show ?case
  proof
    assume "list_ex (admits u) ops"
    then show ?thesis by simp
  next
    assume u: "u \<in> set (map uri (live_blocks c1))"
    from ent show ?thesis
    proof
      assume "entries c1 = entries c0"
      with u show ?thesis by (simp add: uris_entries)
    next
      assume "\<exists>u B n k. x = Insert u B n \<and> n \<le> MAX_OBJECT_SIZE \<and>
             entries c1 = (u, take (nat n) B, n) # take k (entries c0)"
      then obtain u' B n k where x: "x = Insert u' B n" "n \<le> MAX_OBJECT_SIZE"
        "entries c1 = (u', take (nat n) B, n) # take k (entries c0)"
        by blast
      with u have "u = u' \<or> u \<in> set (map fst (take k (entries c0)))"
        by (auto simp: uris_entries)
      then show ?thesis
        using x(1,2) by (auto simp: uris_entries dest: in_set_takeD)
    qed
  qed
qed

section \<open>Claims about the cache\<close>

text \<open>
  Claim C6. An insert whose length is more than \<open>MAX_OBJECT_SIZE\<close> leaves the whole
  cache state as it was, whatever the state, the uri and the buffer: nothing is inserted
  or evicted, no field or link changes. If the state was reached from \<open>cache_init\<close> by
  calls none of which was an insert of \<open>u\<close> that passed the size check, \<open>cache_find u\<close>
  is a miss afterwards.
\<close>

theorem cache_insert_too_large_noop:
  assumes "MAX_OBJECT_SIZE < len"
  shows "cache_insert u B len c = Some c \<and>
         (run_ops ops cache_init = Some c \<and> \<not> list_ex (admits u) ops \<longrightarrow>
            cache_find u c = Some (None, c))"
proof -
  have "cache_insert u B len c = Some c"
    using assms by (simp add: cache_insert_def)
  moreover have "cache_find u c = Some (None, c)"
    if run: "run_ops ops cache_init = Some c" and no: "\<not> list_ex (admits u) ops"
  proof -
    have inv: "cache_inv c" using cache_init_inv run by (rule run_ops_inv)
    have "u \<notin> set (map uri (live_blocks c))"
      using run_ops_uris [OF cache_init_inv run, of u] no
      by (auto simp: cache_init_def live_blocks_def live_def)
    then show ?thesis using inv by (simp add: cache_find_miss_iff)
  qed
  ultimately show ?thesis by blast
qed


lemmas cache_eval = cache_insert_def cache_find_def evict_loop.simps evict_tail_def
  find_loop.simps P_sem_def V_sem_def cache_init_def deref_def Let_def

theorem cache_insert_too_large_noop_witness:
  "MAX_OBJECT_SIZE < 102401 \<and>
   run_ops [Insert ''v'' ''abc'' 3, Insert ''u'' (replicate 102401 CHR ''x'') 102401, Find ''u'']
     cache_init
   = Some \<lparr>heap = [Some \<lparr>uri = ''v'', content = ''abc'', content_size = 3, prev = None, next = None\<rparr>],
            head = Some 0, tail = Some 0, current_size = 3, mutex = 1, w = 1, readcnt = 0\<rparr> \<and>
   \<not> list_ex (admits ''u'')
       [Insert ''v'' ''abc'' 3, Insert ''u'' (replicate 102401 CHR ''x'') 102401, Find ''u''] \<and>
   cache_insert ''u'' (replicate 102401 CHR ''x'') 102401
     \<lparr>heap = [Some \<lparr>uri = ''v'', content = ''abc'', content_size = 3, prev = None, next = None\<rparr>],
      head = Some 0, tail = Some 0, current_size = 3, mutex = 1, w = 1, readcnt = 0\<rparr>
   = Some \<lparr>heap = [Some \<lparr>uri = ''v'', content = ''abc'', content_size = 3, prev = None, next = None\<rparr>],
            head = Some 0, tail = Some 0, current_size = 3, mutex = 1, w = 1, readcnt = 0\<rparr> \<and>
   cache_find ''u''
     \<lparr>heap = [Some \<lparr>uri = ''v'', content = ''abc'', content_size = 3, prev = None, next = None\<rparr>],
      head = Some 0, tail = Some 0, current_size = 3, mutex = 1, w = 1, readcnt = 0\<rparr>
   = Some (None,
       \<lparr>heap = [Some \<lparr>uri = ''v'', content = ''abc'', content_size = 3, prev = None, next = None\<rparr>],
        head = Some 0, tail = Some 0, current_size = 3, mutex = 1, w = 1, readcnt = 0\<rparr>)"
proof -
  let ?ops = "[Insert ''v'' ''abc'' 3, Insert ''u'' (replicate 102401 CHR ''x'') 102401, Find ''u'']"
  let ?c = "\<lparr>heap = [Some \<lparr>uri = ''v'', content = ''abc'', content_size = 3, prev = None, next = None\<rparr>],
      head = Some 0, tail = Some 0, current_size = 3, mutex = 1, w = 1, readcnt = 0\<rparr>"
  have run: "run_ops ?ops cache_init = Some ?c"
    by (simp add: cache_eval)
  have no: "\<not> list_ex (admits ''u'') ?ops" by simp
  have big: "MAX_OBJECT_SIZE < 102401" by simp
  from cache_insert_too_large_noop [OF big, of "''u''" "replicate 102401 CHR ''x''" ?c ?ops] run no big
  show ?thesis by simp
qed

lemmas inv_eval = cache_inv_def linked_def live_def live_blocks_def block_at_def block_ok_def
  deref_def

text \<open>
  Claim C8. \<open>cache_find\<close> leaves the list and the entries as they were, in every
  state and for every uri: when it returns, the heap of blocks (each entry's uri, content,
  size, \<open>prev\<close> and \<open>next\<close>), \<open>head\<close>, \<open>tail\<close> and \<open>current_size\<close> are what they
  were, so a hit does not move the entry it found. In a state that satisfies the invariant
  the call returns, and the whole state is the one before the call: the reader count and
  the two semaphores are back at their values.
\<close>

theorem cache_find_changes_nothing:
  "(cache_find u c = Some (r, c') \<longrightarrow>
      heap c' = heap c \<and> head c' = head c \<and> tail c' = tail c \<and>
      current_size c' = current_size c) \<and>
   (cache_inv c \<longrightarrow> (\<exists>r. cache_find u c = Some (r, c)))"
  using cache_find_frame [of u c r c'] by (simp add: cache_find_inv)

theorem cache_find_changes_nothing_witness:
  "cache_inv
     \<lparr>heap = [Some \<lparr>uri = ''a'', content = ''xyz'', content_size = 3, prev = Some 1, next = None\<rparr>,
              Some \<lparr>uri = ''b'', content = ''pq'', content_size = 2, prev = None, next = Some 0\<rparr>],
      head = Some 1, tail = Some 0, current_size = 5, mutex = 1, w = 1, readcnt = 0\<rparr> \<and>
   cache_find ''a''
     \<lparr>heap = [Some \<lparr>uri = ''a'', content = ''xyz'', content_size = 3, prev = Some 1, next = None\<rparr>,
              Some \<lparr>uri = ''b'', content = ''pq'', content_size = 2, prev = None, next = Some 0\<rparr>],
      head = Some 1, tail = Some 0, current_size = 5, mutex = 1, w = 1, readcnt = 0\<rparr>
   = Some (Some 0,
     \<lparr>heap = [Some \<lparr>uri = ''a'', content = ''xyz'', content_size = 3, prev = Some 1, next = None\<rparr>,
              Some \<lparr>uri = ''b'', content = ''pq'', content_size = 2, prev = None, next = Some 0\<rparr>],
      head = Some 1, tail = Some 0, current_size = 5, mutex = 1, w = 1, readcnt = 0\<rparr>)"
proof -
  let ?c = "\<lparr>heap = [Some \<lparr>uri = ''a'', content = ''xyz'', content_size = 3, prev = Some 1, next = None\<rparr>,
              Some \<lparr>uri = ''b'', content = ''pq'', content_size = 2, prev = None, next = Some 0\<rparr>],
      head = Some 1, tail = Some 0, current_size = 5, mutex = 1, w = 1, readcnt = 0\<rparr>"
  have inv: "cache_inv ?c" by (simp add: inv_eval)
  have hit: "\<exists>c'. cache_find ''a'' ?c = Some (Some 0, c')" by (simp add: cache_eval)
  from cache_find_changes_nothing [of "''a''" ?c] inv hit show ?thesis by auto
qed

text \<open>
  Claim C5. In every state that satisfies the invariant, for every uri \<open>u\<close>, buffer
  \<open>B\<close> and length \<open>n\<close> with \<open>0 \<le> n \<le> MAX_OBJECT_SIZE\<close> that the buffer has,
  \<open>cache_insert u B n\<close> returns, and \<open>cache_find u\<close> right after it returns the block at
  \<open>head\<close>, whose uri is \<open>u\<close> and whose content is the first \<open>n\<close> bytes of \<open>B\<close>. Older
  entries with the same uri do not matter: the example after the theorem has one.
\<close>

theorem insert_then_find:
  assumes "cache_inv c" and "0 \<le> n" and "n \<le> MAX_OBJECT_SIZE" and "nat n \<le> length B"
  shows "\<exists>c' p. cache_insert u B n c = Some c' \<and> cache_find u c' = Some (Some p, c') \<and>
           head c' = Some p \<and> uri (block_at c' p) = u \<and>
           content (block_at c' p) = take (nat n) B \<and> content_size (block_at c' p) = n"
proof -
  from cache_insert_inv [OF assms, of u] obtain c' k where c': "cache_insert u B n c = Some c'"
    "cache_inv c'" "entries c' = (u, take (nat n) B, n) # take k (entries c)"
    "live c' = length (heap c) # take k (live c)" "head c' = Some (length (heap c))"
    by blast
  let ?p = "length (heap c)"
  from c'(3,4) have ent: "entry (block_at c' ?p) = (u, take (nat n) B, n)"
    by (simp add: entries_def live_blocks_def)
  then have "cache_find u c' = Some (Some ?p, c')"
    using c'(2,4) by (simp add: cache_find_inv entry_def)
  with c'(1,5) ent show ?thesis by (auto simp: entry_def)
qed

theorem insert_then_find_witness:
  "cache_inv
     \<lparr>heap = [Some \<lparr>uri = ''u'', content = ''old'', content_size = 3, prev = None, next = None\<rparr>],
      head = Some 0, tail = Some 0, current_size = 3, mutex = 1, w = 1, readcnt = 0\<rparr> \<and>
   (0::int) \<le> 5 \<and> 5 \<le> MAX_OBJECT_SIZE \<and> nat 5 \<le> length ''fresh'' \<and>
   cache_insert ''u'' ''fresh'' 5
     \<lparr>heap = [Some \<lparr>uri = ''u'', content = ''old'', content_size = 3, prev = None, next = None\<rparr>],
      head = Some 0, tail = Some 0, current_size = 3, mutex = 1, w = 1, readcnt = 0\<rparr>
   = Some
     \<lparr>heap = [Some \<lparr>uri = ''u'', content = ''old'', content_size = 3, prev = Some 1, next = None\<rparr>,
              Some \<lparr>uri = ''u'', content = ''fresh'', content_size = 5, prev = None, next = Some 0\<rparr>],
      head = Some 1, tail = Some 0, current_size = 8, mutex = 1, w = 1, readcnt = 0\<rparr> \<and>
   cache_find ''u''
     \<lparr>heap = [Some \<lparr>uri = ''u'', content = ''old'', content_size = 3, prev = Some 1, next = None\<rparr>,
              Some \<lparr>uri = ''u'', content = ''fresh'', content_size = 5, prev = None, next = Some 0\<rparr>],
      head = Some 1, tail = Some 0, current_size = 8, mutex = 1, w = 1, readcnt = 0\<rparr>
   = Some (Some 1,
     \<lparr>heap = [Some \<lparr>uri = ''u'', content = ''old'', content_size = 3, prev = Some 1, next = None\<rparr>,
              Some \<lparr>uri = ''u'', content = ''fresh'', content_size = 5, prev = None, next = Some 0\<rparr>],
      head = Some 1, tail = Some 0, current_size = 8, mutex = 1, w = 1, readcnt = 0\<rparr>)"
proof -
  let ?c = "\<lparr>heap = [Some \<lparr>uri = ''u'', content = ''old'', content_size = 3, prev = None, next = None\<rparr>],
      head = Some 0, tail = Some 0, current_size = 3, mutex = 1, w = 1, readcnt = 0\<rparr>"
  let ?c' = "\<lparr>heap = [Some \<lparr>uri = ''u'', content = ''old'', content_size = 3, prev = Some 1, next = None\<rparr>,
              Some \<lparr>uri = ''u'', content = ''fresh'', content_size = 5, prev = None, next = Some 0\<rparr>],
      head = Some 1, tail = Some 0, current_size = 8, mutex = 1, w = 1, readcnt = 0\<rparr>"
  have inv: "cache_inv ?c" by (simp add: inv_eval)
  have ins: "cache_insert ''u'' ''fresh'' 5 ?c = Some ?c'" by (simp add: cache_eval)
  from insert_then_find [OF inv, of 5 "''fresh''" "''u''"] ins
  have "cache_find ''u'' ?c' = Some (Some 1, ?c')" by auto
  with inv ins show ?thesis by simp
qed

lemma run_ops_returns:
  "cache_inv c \<Longrightarrow> list_all op_ok ops \<Longrightarrow> \<exists>c'. run_ops ops c = Some c'"
proof (induction ops arbitrary: c)
  case Nil
  then show ?case by simp
next
  case (Cons x ops)
  have "\<exists>c1. apply_op x c = Some c1"
  proof (cases x)
    case (Find u)
    with Cons.prems(1) show ?thesis by (simp add: cache_find_inv)
  next
    case (Insert u B n)
    show ?thesis
    proof (cases "n > MAX_OBJECT_SIZE")
      case True
      with Insert show ?thesis by (simp add: cache_insert_def)
    next
      case False
      with Cons.prems(2) Insert have "0 \<le> n" "n \<le> MAX_OBJECT_SIZE" "nat n \<le> length B"
        by auto
      from cache_insert_inv [OF Cons.prems(1) this, of u] Insert show ?thesis by auto
    qed
  qed
  then obtain c1 where c1: "apply_op x c = Some c1" ..
  with Cons.prems(1) have "cache_inv c1" by (blast dest: apply_op_inv)
  with Cons.IH [of c1] Cons.prems(2) c1 show ?case by simp
qed

text \<open>
  Claim C4. After every sequence of cache calls from the initialised empty cache in which
  each call returned, the sizes of the live entries add up to at most \<open>MAX_CACHE_SIZE\<close>.
  Every sequence is covered, so the bound holds after each insert of a longer one. The
  calls all return when every insert is given a length that is not negative and, where it
  passes the size check, a buffer that has that many bytes.
\<close>

theorem cache_within_budget:
  "(run_ops ops cache_init = Some c \<longrightarrow>
      sum_list (map content_size (live_blocks c)) \<le> MAX_CACHE_SIZE) \<and>
   (list_all op_ok ops \<longrightarrow> (\<exists>c'. run_ops ops cache_init = Some c'))"
proof -
  have "sum_list (map content_size (live_blocks c)) \<le> MAX_CACHE_SIZE"
    if "run_ops ops cache_init = Some c"
  proof -
    have "cache_inv c" using cache_init_inv that by (rule run_ops_inv)
    then show ?thesis by (simp add: cache_inv_def)
  qed
  moreover have "\<exists>c'. run_ops ops cache_init = Some c'" if "list_all op_ok ops"
    using cache_init_inv that by (rule run_ops_returns)
  ultimately show ?thesis by blast
qed

theorem cache_within_budget_witness:
  "list_all op_ok (map (\<lambda>x. Insert [x] (replicate 102400 CHR ''z'') 102400) ''abcdefghijk'') \<and>
   run_ops (map (\<lambda>x. Insert [x] (replicate 102400 CHR ''z'') 102400) ''abcdefghijk'') cache_init
     \<noteq> None \<and>
   map uri (live_blocks (the (run_ops
     (map (\<lambda>x. Insert [x] (replicate 102400 CHR ''z'') 102400) ''abcdefghijk'') cache_init)))
     = [''k'', ''j'', ''i'', ''h'', ''g'', ''f'', ''e'', ''d'', ''c'', ''b''] \<and>
   sum_list (map content_size (live_blocks (the (run_ops
     (map (\<lambda>x. Insert [x] (replicate 102400 CHR ''z'') 102400) ''abcdefghijk'') cache_init))))
     \<le> MAX_CACHE_SIZE"
proof -
  define ops where "ops = map (\<lambda>x. Insert [x] (replicate 102400 CHR ''z'') 102400) ''abcdefghijk''"
  have ok: "list_all op_ok ops" unfolding ops_def by simp
  have "\<exists>c. run_ops ops cache_init = Some c \<and>
          map uri (live_blocks c) = [''k'', ''j'', ''i'', ''h'', ''g'', ''f'', ''e'', ''d'', ''c'', ''b'']"
    unfolding ops_def by (simp add: cache_eval live_blocks_def live_def block_at_def)
  then obtain c where c: "run_ops ops cache_init = Some c"
    "map uri (live_blocks c) = [''k'', ''j'', ''i'', ''h'', ''g'', ''f'', ''e'', ''d'', ''c'', ''b'']"
    by (elim exE conjE)
  from cache_within_budget [of ops c, THEN conjunct1, rule_format, OF c(1)]
  have le: "sum_list (map content_size (live_blocks c)) \<le> MAX_CACHE_SIZE" .
  have "list_all op_ok ops \<and> run_ops ops cache_init \<noteq> None \<and>
     map uri (live_blocks (the (run_ops ops cache_init)))
       = [''k'', ''j'', ''i'', ''h'', ''g'', ''f'', ''e'', ''d'', ''c'', ''b''] \<and>
     sum_list (map content_size (live_blocks (the (run_ops ops cache_init)))) \<le> MAX_CACHE_SIZE"
    unfolding c(1) option.sel using ok c(2) le by simp
  then show ?thesis unfolding ops_def .
qed

lemma run_ops_distinct:
  assumes "cache_inv c0" and "distinct (map uri (live_blocks c0))"
    and "run_ops ops c0 = Some c" and "guarded ops c0"
  shows "distinct (map uri (live_blocks c))"
  using assms
proof (induction ops arbitrary: c0)
  case Nil
  then show ?case by simp
next
  case (Cons x ops)
  then obtain c1 where c1: "apply_op x c0 = Some c1" "run_ops ops c1 = Some c"
    by (auto split: option.splits)
  from Cons.prems(4) c1(1) have g: "guarded ops c1"
    and fresh: "\<And>u B n. x = Insert u B n \<Longrightarrow> u \<notin> set (map uri (live_blocks c0))"
    by auto
  from apply_op_inv [OF Cons.prems(1) c1(1)] have inv1: "cache_inv c1"
    and ent: "entries c1 = entries c0 \<or>
          (\<exists>u B n k. x = Insert u B n \<and> n \<le> MAX_OBJECT_SIZE \<and>
             entries c1 = (u, take (nat n) B, n) # take k (entries c0))"
    by auto
  from ent have "distinct (map uri (live_blocks c1))"
  proof
    assume "entries c1 = entries c0"
    with Cons.prems(2) show ?thesis by (simp add: uris_entries)
  next
    assume "\<exists>u B n k. x = Insert u B n \<and> n \<le> MAX_OBJECT_SIZE \<and>
             entries c1 = (u, take (nat n) B, n) # take k (entries c0)"
    then obtain u B n k where x: "x = Insert u B n"
      "entries c1 = (u, take (nat n) B, n) # take k (entries c0)"
      by blast
    from fresh [OF x(1)] have "u \<notin> set (take k (map fst (entries c0)))"
      by (auto simp: uris_entries dest: in_set_takeD)
    moreover have "distinct (take k (map fst (entries c0)))"
      using Cons.prems(2) by (simp add: uris_entries)
    ultimately show ?thesis
      using x(2) by (simp add: uris_entries take_map)
  qed
  from Cons.IH [OF inv1 this c1(2) g] show ?case .
qed

text \<open>
  Claim C2, as amended. In every state produced from \<open>cache_init\<close> by \<open>cache_find\<close>
  calls and by \<open>cache_insert\<close> calls each made for a uri that no live entry has at the
  time of the call, no two live entries have the same uri. As stated, for every sequence
  of calls, the claim fails: \<open>cache_insert\<close> never looks for an entry with the uri it is
  given, so a second insert of a cached uri leaves two live entries with that uri.
\<close>

theorem no_duplicates_when_inserts_follow_a_miss:
  "run_ops ops cache_init = Some c \<Longrightarrow> guarded ops cache_init \<Longrightarrow>
   distinct (map uri (live_blocks c))"
proof -
  assume "run_ops ops cache_init = Some c" and "guarded ops cache_init"
  moreover have "distinct (map uri (live_blocks cache_init))"
    by (simp add: cache_init_def live_blocks_def live_def)
  ultimately show ?thesis
    using cache_init_inv by (blast intro: run_ops_distinct)
qed


theorem duplicate_insert_counterexample:
  "run_ops [Insert ''u'' ''a'' 1, Find ''u'', Insert ''u'' ''b'' 1] cache_init \<noteq> None \<and>
   map uri (live_blocks (the (run_ops [Insert ''u'' ''a'' 1, Find ''u'', Insert ''u'' ''b'' 1]
     cache_init))) = [''u'', ''u''] \<and>
   \<not> distinct (map uri (live_blocks (the (run_ops
     [Insert ''u'' ''a'' 1, Find ''u'', Insert ''u'' ''b'' 1] cache_init))))"
  by (simp add: cache_eval live_blocks_def live_def block_at_def)

theorem no_duplicates_when_inserts_follow_a_miss_witness:
  "run_ops [Insert ''a'' ''x'' 1, Find ''a'', Insert ''b'' ''y'' 1] cache_init
   = Some
     \<lparr>heap = [Some \<lparr>uri = ''a'', content = ''x'', content_size = 1, prev = Some 1, next = None\<rparr>,
              Some \<lparr>uri = ''b'', content = ''y'', content_size = 1, prev = None, next = Some 0\<rparr>],
      head = Some 1, tail = Some 0, current_size = 2, mutex = 1, w = 1, readcnt = 0\<rparr> \<and>
   guarded [Insert ''a'' ''x'' 1, Find ''a'', Insert ''b'' ''y'' 1] cache_init \<and>
   distinct (map uri (live_blocks
     \<lparr>heap = [Some \<lparr>uri = ''a'', content = ''x'', content_size = 1, prev = Some 1, next = None\<rparr>,
              Some \<lparr>uri = ''b'', content = ''y'', content_size = 1, prev = None, next = Some 0\<rparr>],
      head = Some 1, tail = Some 0, current_size = 2, mutex = 1, w = 1, readcnt = 0\<rparr>))"
proof -
  let ?ops = "[Insert ''a'' ''x'' 1, Find ''a'', Insert ''b'' ''y'' 1]"
  let ?c = "\<lparr>heap = [Some \<lparr>uri = ''a'', content = ''x'', content_size = 1, prev = Some 1, next = None\<rparr>,
              Some \<lparr>uri = ''b'', content = ''y'', content_size = 1, prev = None, next = Some 0\<rparr>],
      head = Some 1, tail = Some 0, current_size = 2, mutex = 1, w = 1, readcnt = 0\<rparr>"
  have run: "run_ops ?ops cache_init = Some ?c" by (simp add: cache_eval)
  have g: "guarded ?ops cache_init"
    by (simp add: cache_eval live_blocks_def live_def block_at_def)
  from no_duplicates_when_inserts_follow_a_miss [OF run g] run g show ?thesis by simp
qed

section \<open>Claims about the hand-off queue\<close>

lemma c_rem_nonneg: "0 \<le> a \<Longrightarrow> 0 < b \<Longrightarrow> c_rem a b = a mod b"
  by (cases "a = 0") (simp_all add: c_rem_def)

lemma slot_ring:
  assumes "0 < sb_n sp" and "length (sb_buf sp) = nat (sb_n sp)" and "0 \<le> r"
  shows "slot sp r = Some (nat (r mod sb_n sp))"
proof -
  have "0 \<le> r mod sb_n sp" "r mod sb_n sp < sb_n sp"
    using assms(1) by simp_all
  then show ?thesis
    using assms by (simp add: slot_def c_rem_nonneg Let_def)
qed

lemma mod_distinct:
  fixes f n :: int
  assumes "0 \<le> i" and "i < j" and "j < n"
  shows "(f + i) mod n \<noteq> (f + j) mod n"
proof
  assume "(f + i) mod n = (f + j) mod n"
  then have "n dvd (f + j) - (f + i)"
    by (metis mod_eq_dvd_iff)
  then have "n dvd j - i" by simp
  moreover have "0 < j - i" "j - i < n" using assms by auto
  ultimately show False
    using zdvd_not_zless by blast
qed

lemma sbuf_insert_ring:
  assumes r: "ring sp q" and room: "length q < nat (sb_n sp)" and lim: "rear sp < INT_MAX"
  shows "\<exists>sp'. sbuf_insert x sp = Some sp' \<and> ring sp' (q @ [x]) \<and>
           rear sp' = rear sp + 1 \<and> sb_n sp' = sb_n sp"
proof -
  let ?n = "sb_n sp"
  let ?i = "nat ((rear sp + 1) mod ?n)"
  let ?sp' = "sp\<lparr>slots := slots sp - 1, rear := rear sp + 1,
                 sb_buf := (sb_buf sp)[?i := x], items := Suc (items sp)\<rparr>"
  from r have n: "0 < ?n" and len: "length (sb_buf sp) = nat ?n" and f: "0 \<le> front sp"
    and rr: "rear sp = front sp + int (length q)" and it: "items sp = length q"
    and sl: "slots sp = nat ?n - length q" and mx: "sb_mutex sp = 1"
    and bufq: "\<forall>i<length q. sb_buf sp ! nat ((front sp + 1 + int i) mod ?n) = q ! i"
    by (auto simp: ring_def)
  have sl_pos: "slots sp \<noteq> 0" using sl room by simp
  have slot: "slot (sp\<lparr>slots := slots sp - 1, sb_mutex := 0, rear := rear sp + 1\<rparr>) (rear sp + 1)
              = Some ?i"
    using n len f rr by (intro slot_ring [THEN trans]) auto
  have ins: "sbuf_insert x sp = Some ?sp'"
    using sl_pos mx lim slot
    by (simp add: sbuf_insert_def P_sem_def V_sem_def Let_def)
  have ilt: "?i < length (sb_buf sp)"
    using n len by (simp add: nat_less_iff)
  have "\<forall>i<length (q @ [x]). sb_buf ?sp' ! nat ((front ?sp' + 1 + int i) mod sb_n ?sp') = (q @ [x]) ! i"
  proof (intro allI impI)
    fix i assume i: "i < length (q @ [x])"
    show "sb_buf ?sp' ! nat ((front ?sp' + 1 + int i) mod sb_n ?sp') = (q @ [x]) ! i"
    proof (cases "i = length q")
      case True
      then show ?thesis using ilt rr by (simp add: algebra_simps)
    next
      case False
      with i have iq: "i < length q" by simp
      have "(front sp + 1 + int i) mod ?n \<noteq> (front sp + 1 + int (length q)) mod ?n"
        using iq room by (intro mod_distinct) auto
      then have "nat ((front sp + 1 + int i) mod ?n) \<noteq> ?i"
        using n rr by (simp add: algebra_simps nat_eq_iff)
      then show ?thesis using iq bufq by (simp add: nth_append)
    qed
  qed
  then have "ring ?sp' (q @ [x])"
    using n len f rr it sl mx room by (simp add: ring_def)
  with ins show ?thesis by (intro exI [of _ ?sp']) simp
qed

lemma sbuf_inserts_ring:
  "ring sp q \<Longrightarrow> length q + length xs \<le> nat (sb_n sp) \<Longrightarrow>
   rear sp + int (length xs) \<le> INT_MAX \<Longrightarrow>
   \<exists>sp'. sbuf_inserts xs sp = Some sp' \<and> ring sp' (q @ xs) \<and>
     rear sp' = rear sp + int (length xs)"
proof (induction xs arbitrary: sp q)
  case Nil
  then show ?case by simp
next
  case (Cons x xs)
  from Cons.prems have "length q < nat (sb_n sp)" "rear sp < INT_MAX" by auto
  from sbuf_insert_ring [OF Cons.prems(1) this, of x] obtain sp1 where sp1:
    "sbuf_insert x sp = Some sp1" "ring sp1 (q @ [x])" "rear sp1 = rear sp + 1"
    "sb_n sp1 = sb_n sp"
    by auto
  from Cons.IH [OF sp1(2)] Cons.prems(2,3) sp1(3,4)
  obtain sp' where "sbuf_inserts xs sp1 = Some sp'" "ring sp' ((q @ [x]) @ xs)"
    "rear sp' = rear sp1 + int (length xs)"
    by auto
  with sp1(1,3) show ?case by simp
qed

lemma sbuf_remove_ring:
  assumes r: "ring sp (y # q)" and lim: "rear sp \<le> INT_MAX"
  shows "\<exists>sp'. sbuf_remove sp = Some (y, sp') \<and> ring sp' q \<and> rear sp' = rear sp"
proof -
  let ?n = "sb_n sp"
  let ?i = "nat ((front sp + 1) mod ?n)"
  let ?sp' = "sp\<lparr>items := items sp - 1, front := front sp + 1, slots := Suc (slots sp)\<rparr>"
  from r have n: "0 < ?n" and len: "length (sb_buf sp) = nat ?n" and f: "0 \<le> front sp"
    and rr: "rear sp = front sp + int (length (y # q))" and it: "items sp = length (y # q)"
    and sl: "slots sp = nat ?n - length (y # q)" and mx: "sb_mutex sp = 1"
    and le: "length (y # q) \<le> nat ?n"
    and bufq: "\<forall>i<length (y # q). sb_buf sp ! nat ((front sp + 1 + int i) mod ?n) = (y # q) ! i"
    by (auto simp: ring_def)
  have flim: "front sp < INT_MAX" using rr lim by simp
  have slot: "slot (sp\<lparr>items := items sp - 1, sb_mutex := 0, front := front sp + 1\<rparr>) (front sp + 1)
              = Some ?i"
    using n len f by (intro slot_ring [THEN trans]) auto
  have y: "sb_buf sp ! ?i = y" using bufq by auto
  have rem: "sbuf_remove sp = Some (y, ?sp')"
    using it mx flim slot y
    by (simp add: sbuf_remove_def P_sem_def V_sem_def Let_def)
  have "\<forall>i<length q. sb_buf ?sp' ! nat ((front ?sp' + 1 + int i) mod sb_n ?sp') = q ! i"
  proof (intro allI impI)
    fix i assume "i < length q"
    then have "Suc i < length (y # q)" by simp
    with bufq have "sb_buf sp ! nat ((front sp + 1 + int (Suc i)) mod ?n) = (y # q) ! Suc i"
      by blast
    then show "sb_buf ?sp' ! nat ((front ?sp' + 1 + int i) mod sb_n ?sp') = q ! i"
      by (simp add: algebra_simps)
  qed
  then have "ring ?sp' q"
    using n len f rr it sl mx le by (auto simp: ring_def)
  with rem show ?thesis by (intro exI [of _ ?sp']) simp
qed

lemma sbuf_removes_ring:
  "ring sp (xs @ q) \<Longrightarrow> rear sp \<le> INT_MAX \<Longrightarrow>
   \<exists>sp'. sbuf_removes (length xs) sp = Some (xs, sp') \<and> ring sp' q"
proof (induction xs arbitrary: sp)
  case Nil
  then show ?case by simp
next
  case (Cons x xs)
  from Cons.prems(1) have "ring sp (x # (xs @ q))" by simp
  from sbuf_remove_ring [OF this Cons.prems(2)] obtain sp1 where sp1:
    "sbuf_remove sp = Some (x, sp1)" "ring sp1 (xs @ q)" "rear sp1 = rear sp"
    by auto
  from Cons.IH [OF sp1(2)] Cons.prems(2) sp1(3)
  obtain sp' where "sbuf_removes (length xs) sp1 = Some (xs, sp')" "ring sp' q"
    by auto
  with sp1(1) show ?case by simp
qed

lemma sbuf_init_ring: "0 < n \<Longrightarrow> \<exists>sp. sbuf_init n = Some sp \<and> ring sp [] \<and> sb_n sp = n \<and> rear sp = 0"
  by (simp add: sbuf_init_def ring_def)

text \<open>
  Claim C9. On the buffer that \<open>sbuf_init\<close> makes with \<open>SBUFSIZE\<close> slots, run by one
  thread: at most \<open>SBUFSIZE\<close> calls of \<open>sbuf_insert\<close> all return, the same number of
  calls of \<open>sbuf_remove\<close> after them all return, and what the removes return is the
  inserted descriptors in the order of their insertion.
\<close>

theorem sbuf_fifo:
  assumes "int (length xs) \<le> SBUFSIZE"
  shows "\<exists>sp0 sp1 sp2. sbuf_init SBUFSIZE = Some sp0 \<and> sbuf_inserts xs sp0 = Some sp1 \<and>
           sbuf_removes (length xs) sp1 = Some (xs, sp2)"
proof -
  from sbuf_init_ring [of SBUFSIZE] obtain sp0 where sp0: "sbuf_init SBUFSIZE = Some sp0"
    "ring sp0 []" "sb_n sp0 = SBUFSIZE" "rear sp0 = 0"
    by auto
  from sbuf_inserts_ring [OF sp0(2), of xs] assms sp0(3,4)
  obtain sp1 where sp1: "sbuf_inserts xs sp0 = Some sp1" "ring sp1 ([] @ xs)"
    "rear sp1 = rear sp0 + int (length xs)"
    by auto
  from sp1(2) have r1: "ring sp1 (xs @ [])" by simp
  have "rear sp1 \<le> INT_MAX"
    using sp1(3) sp0(4) assms by simp
  from sbuf_removes_ring [OF r1 this] obtain sp2 where
    "sbuf_removes (length xs) sp1 = Some (xs, sp2)"
    by auto
  with sp0(1) sp1(1) show ?thesis by blast
qed


theorem sbuf_fifo_witness:
  "int (length [3, 4, 5, 6, 7, 8, 9, 10, 11, 12, 13, 14, 15, 16, 17, 18 :: int]) \<le> SBUFSIZE \<and>
   sbuf_removes 16
     (the (sbuf_inserts [3, 4, 5, 6, 7, 8, 9, 10, 11, 12, 13, 14, 15, 16, 17, 18]
        (the (sbuf_init SBUFSIZE))))
   = Some ([3, 4, 5, 6, 7, 8, 9, 10, 11, 12, 13, 14, 15, 16, 17, 18],
       \<lparr>sb_buf = [18, 3, 4, 5, 6, 7, 8, 9, 10, 11, 12, 13, 14, 15, 16, 17], sb_n = 16,
        front = 16, rear = 16, sb_mutex = 1, slots = 16, items = 0\<rparr>)"
proof -
  have len: "int (length [3, 4, 5, 6, 7, 8, 9, 10, 11, 12, 13, 14, 15, 16, 17, 18 :: int]) \<le> SBUFSIZE"
    by simp
  have "sbuf_removes 16
     (the (sbuf_inserts [3, 4, 5, 6, 7, 8, 9, 10, 11, 12, 13, 14, 15, 16, 17, 18]
        (the (sbuf_init SBUFSIZE))))
   = Some ([3, 4, 5, 6, 7, 8, 9, 10, 11, 12, 13, 14, 15, 16, 17, 18],
       \<lparr>sb_buf = [18, 3, 4, 5, 6, 7, 8, 9, 10, 11, 12, 13, 14, 15, 16, 17], sb_n = 16,
        front = 16, rear = 16, sb_mutex = 1, slots = 16, items = 0\<rparr>)"
    using sbuf_fifo [OF len]
    by (simp add: sbuf_init_def sbuf_insert_def sbuf_remove_def slot_def c_rem_def
          P_sem_def V_sem_def Let_def eval_nat_numeral)
  with len show ?thesis by simp
qed

section \<open>Claims about parse\_uri\<close>

lemmas str_eval = strncasecmp_eq_def strcasecmp_eq_def tolower_def strstr_def atoi_def
  isspace_def isdigit_def cstr_def

lemma strstr_None: "strstr s c = None \<longleftrightarrow> c \<notin> set s"
  by (simp add: strstr_def)

lemma strstr_Some:
  "strstr s c = Some i \<Longrightarrow>
   take i s = takeWhile (\<lambda>x. x \<noteq> c) s \<and> drop i s = dropWhile (\<lambda>x. x \<noteq> c) s"
proof -
  assume "strstr s c = Some i"
  then have i: "i = length (takeWhile (\<lambda>x. x \<noteq> c) s)"
    by (simp add: strstr_def split: if_splits)
  show ?thesis
    unfolding i by (simp add: takeWhile_eq_take [symmetric] dropWhile_eq_drop [symmetric])
qed

text \<open>Where the source and the specification agree: on every uri that has a colon
  before its first slash, or no colon at all after the prefix.\<close>

lemma parse_uri_agrees:
  assumes "rest = (if strncasecmp_eq u ''http://'' 7 then drop 7 u else u)"
    and "CHR '':'' \<in> set (takeWhile (\<lambda>c. c \<noteq> CHR ''/'') rest) \<or> CHR '':'' \<notin> set rest"
  shows "parse_uri u = parse_uri_spec u"
proof -
  let ?path = "if CHR ''/'' \<in> set rest then dropWhile (\<lambda>c. c \<noteq> CHR ''/'') rest else ''/''"
  have path: "(case strstr rest CHR ''/'' of Some pathbegin \<Rightarrow> drop pathbegin rest | None \<Rightarrow> ''/'')
              = ?path"
    by (simp add: strstr_def dropWhile_eq_drop [symmetric])
  from assms(2) show ?thesis
  proof
    assume colon: "CHR '':'' \<in> set (takeWhile (\<lambda>c. c \<noteq> CHR ''/'') rest)"
    then have "CHR '':'' \<in> set rest" by (rule set_takeWhileD [THEN conjunct1])
    then obtain i where i: "strstr rest CHR '':'' = Some i" by (simp add: strstr_def)
    have "drop (Suc i) rest = tl (drop i rest)"
      by (simp add: drop_Suc tl_drop)
    with strstr_Some [OF i] have d: "drop (Suc i) rest = tl (dropWhile (\<lambda>c. c \<noteq> CHR '':'') rest)"
      and t: "take i rest = takeWhile (\<lambda>c. c \<noteq> CHR '':'') rest"
      by simp_all
    have "parse_uri u = (case atoi (tl (dropWhile (\<lambda>c. c \<noteq> CHR '':'') rest)) of
             None \<Rightarrow> None
           | Some port \<Rightarrow> Some (takeWhile (\<lambda>c. c \<noteq> CHR '':'') rest, ?path, port))"
      unfolding parse_uri_def Let_def assms(1) [symmetric] path i
      by (simp add: d t split: option.splits)
    moreover have "parse_uri_spec u = (case atoi (tl (dropWhile (\<lambda>c. c \<noteq> CHR '':'') rest)) of
             None \<Rightarrow> None
           | Some port \<Rightarrow> Some (takeWhile (\<lambda>c. c \<noteq> CHR '':'') rest, ?path, port))"
      unfolding parse_uri_spec_def Let_def assms(1) [symmetric] using colon by simp
    ultimately show ?thesis by simp
  next
    assume none: "CHR '':'' \<notin> set rest"
    then have n: "strstr rest CHR '':'' = None" by (simp add: strstr_def)
    have nb: "CHR '':'' \<notin> set (takeWhile (\<lambda>c. c \<noteq> CHR ''/'') rest)"
      using none by (auto dest: set_takeWhileD)
    have spec: "parse_uri_spec u = Some (takeWhile (\<lambda>c. c \<noteq> CHR ''/'') rest, ?path, 80)"
      unfolding parse_uri_spec_def Let_def assms(1) [symmetric] using nb by simp
    show ?thesis
    proof (cases "strstr rest CHR ''/''")
      case None
      then have ns: "CHR ''/'' \<notin> set rest" by (simp add: strstr_None)
      then have tw: "takeWhile (\<lambda>c. c \<noteq> CHR ''/'') rest = rest"
        by (auto simp: takeWhile_eq_all_conv)
      have "parse_uri u = Some (rest, ''/'', 80)"
        unfolding parse_uri_def Let_def assms(1) [symmetric] n None by simp
      with spec tw ns show ?thesis by simp
    next
      case (Some j)
      from strstr_Some [OF Some] have t: "take j rest = takeWhile (\<lambda>c. c \<noteq> CHR ''/'') rest"
        and d: "drop j rest = dropWhile (\<lambda>c. c \<noteq> CHR ''/'') rest"
        by simp_all
      from Some have sl: "CHR ''/'' \<in> set rest" by (simp add: strstr_def split: if_splits)
      have "parse_uri u = Some (takeWhile (\<lambda>c. c \<noteq> CHR ''/'') rest, ?path, 80)"
        unfolding parse_uri_def Let_def assms(1) [symmetric] n Some
        by (simp add: t d sl)
      with spec show ?thesis by simp
    qed
  qed
qed

text \<open>
  Claim C3, at the uri the claim names. The specification reads \<open>http://h/a:b\<close> as
  hostname \<open>h\<close>, port 80, path \<open>/a:b\<close>. The source looks for the first colon in the
  whole remainder, not only before the first slash: it returns hostname \<open>h/a\<close>, the port
  \<open>atoi("b")\<close>, which is 0, and path \<open>/a:b\<close>. Lemma \<open>parse_uri_agrees\<close> above shows
  that the two agree on every other kind of uri.
\<close>

theorem parse_uri_colon_after_slash:
  "parse_uri ''http://h/a:b'' = Some (''h/a'', ''/a:b'', 0) \<and>
   parse_uri_spec ''http://h/a:b'' = Some (''h'', ''/a:b'', 80)"
  by (simp add: parse_uri_def parse_uri_spec_def str_eval)

text \<open>The three uris of scenario 6 of the specification.\<close>

lemma parse_uri_examples:
  "parse_uri ''http://host.example:8080/a/b'' = Some (''host.example'', ''/a/b'', 8080)"
  "parse_uri ''http://host.example/'' = Some (''host.example'', ''/'', 80)"
  "parse_uri ''host.example'' = Some (''host.example'', ''/'', 80)"
  by (simp_all add: parse_uri_def str_eval)

section \<open>The request handler: forwarding, staging, admission\<close>

lemma readline_Nil [simp]: "readline k [] = ([], [])"
  by (cases k) auto

lemma readline_Cons:
  "0 < k \<Longrightarrow> readline k (c # cs) =
     (if c = LF then ([c], cs) else (case readline (k - 1) cs of (l, r) \<Rightarrow> (c # l, r)))"
  by (cases k) auto

lemma Rio_readlineb_Nil [simp]: "Rio_readlineb [] maxlen = ([], [])"
  by (simp add: Rio_readlineb_def)

lemma Rio_readlineb_empty: "fst (Rio_readlineb rp MAXLINE) = [] \<Longrightarrow> rp = []"
  by (cases rp) (simp_all add: Rio_readlineb_def readline_Cons split: if_splits prod.splits)

lemma stream_loop_Nil: "stream_loop [] cb = ([], cb)"
  by (subst stream_loop.simps) simp

lemma Rio_readlineb_append:
  "fst (Rio_readlineb rp maxlen) @ snd (Rio_readlineb rp maxlen) = rp"
  by (simp add: Rio_readlineb_def readline_append)

lemma stream_loop_bytes: "client_bytes (fst (stream_loop rs cb)) = rs"
proof (induction rs cb rule: stream_loop.induct)
  case (1 rs cb)
  show ?case
  proof (cases "fst (Rio_readlineb rs MAXLINE) = []")
    case True
    then have "rs = []" by (rule Rio_readlineb_empty)
    then show ?thesis by (simp add: stream_loop_Nil)
  next
    case False
    then have "client_bytes (fst (stream_loop rs cb))
      = fst (Rio_readlineb rs MAXLINE) @ snd (Rio_readlineb rs MAXLINE)"
      using "1.IH" by (subst stream_loop.simps) (simp add: Let_def)
    then show ?thesis by (simp only: Rio_readlineb_append)
  qed
qed

lemma stream_loop_staged_le:
  "int (length cb) \<le> MAX_OBJECT_SIZE \<Longrightarrow>
   int (length (snd (stream_loop rs cb))) \<le> MAX_OBJECT_SIZE"
proof (induction rs cb rule: stream_loop.induct)
  case (1 rs cb)
  show ?case
  proof (cases "fst (Rio_readlineb rs MAXLINE) = []")
    case True
    then show ?thesis using "1.prems" by (subst stream_loop.simps) simp
  next
    case False
    then show ?thesis
      using "1.IH" "1.prems" by (subst stream_loop.simps) (simp add: Let_def)
  qed
qed

lemma stream_loop_events:
  "list_all (\<lambda>e. \<not> is_probe e \<and> \<not> is_connect e) (fst (stream_loop rs cb))"
proof (induction rs cb rule: stream_loop.induct)
  case (1 rs cb)
  show ?case
  proof (cases "fst (Rio_readlineb rs MAXLINE) = []")
    case True
    then show ?thesis by (subst stream_loop.simps) simp
  next
    case False
    then show ?thesis
      using "1.IH" by (subst stream_loop.simps) (simp add: Let_def)
  qed
qed

lemma stream_loop_fits:
  "int (length cb + length rs) \<le> MAX_OBJECT_SIZE \<Longrightarrow> snd (stream_loop rs cb) = cb @ rs"
proof (induction rs cb rule: stream_loop.induct)
  case (1 rs cb)
  let ?l = "fst (Rio_readlineb rs MAXLINE)" and ?r = "snd (Rio_readlineb rs MAXLINE)"
  have app: "?l @ ?r = rs" by (rule Rio_readlineb_append)
  then have len: "length ?l + length ?r = length rs"
    by (metis length_append)
  show ?case
  proof (cases "?l = []")
    case True
    then have "rs = []" by (rule Rio_readlineb_empty)
    then show ?thesis by (simp add: stream_loop_Nil)
  next
    case False
    have fit: "int (length cb) + int (length ?l) \<le> MAX_OBJECT_SIZE"
      using "1.prems" len by simp
    have "snd (stream_loop ?r (cb @ ?l)) = (cb @ ?l) @ ?r"
      using False fit "1.prems" len "1.IH" by (simp add: Let_def)
    then have "snd (stream_loop rs cb) = cb @ ?l @ ?r"
      using False fit by (subst stream_loop.simps) (simp add: Let_def)
    then show ?thesis by (simp only: app)
  qed
qed

lemma get_requestD:
  assumes "get_request client u"
  shows "fst (Rio_readlineb client MAXLINE) \<noteq> [] \<and>
         (\<exists>method version. sscanf3 (fst (Rio_readlineb client MAXLINE)) = (Some method, Some u, version)
            \<and> strcasecmp_eq method ''GET'')"
  using assms unfolding get_request_def Let_def
  by (auto split: prod.splits option.splits)

lemma doit_hit:
  assumes inv: "cache_inv c" and req: "get_request client u"
    and hit: "cache_find u c = Some (Some p, c)"
  shows "doit origin client c = Some ([Cache_find u, Write_client (content (block_at c p))], c)"
proof -
  from get_requestD [OF req] obtain m v where
    line: "fst (Rio_readlineb client MAXLINE) \<noteq> []"
      "sscanf3 (fst (Rio_readlineb client MAXLINE)) = (Some m, Some u, v)"
      "strcasecmp_eq m ''GET''"
    by auto
  from inv hit have "List.find (\<lambda>a. uri (block_at c a) = u) (live c) = Some p"
    by (simp add: cache_find_inv)
  then have p: "p \<in> set (live c)" by (auto simp: find_Some_iff)
  from inv have "cache_wf c (live c)" by (simp add: cache_inv_iff)
  then have "dll (heap c) None (head c) (live c)" and "list_all (\<lambda>a. block_ok (block_at c a)) (live c)"
    by (simp_all add: cache_wf_def linked_def)
  with p obtain b where b: "deref (heap c) p = Some b" and ok: "block_ok (block_at c p)"
    by (auto simp: list_all_iff dest: dll_allocated)
  from b ok have "block_ok b" by (simp add: block_at_def)
  then have sz: "0 \<le> content_size b" "nat (content_size b) = length (content b)"
    by (simp_all add: block_ok_def)
  show ?thesis
    unfolding doit_def Let_def using line hit b sz by (simp add: block_at_def)
qed

lemma doit_miss:
  assumes inv: "cache_inv c" and req: "get_request client u"
    and miss: "cache_find u c = Some (None, c)"
    and parse: "parse_uri u = Some (hostname, pathname, port)"
    and conn: "origin hostname port = Some server"
    and hdrs: "build_requesthdrs (snd (Rio_readlineb client MAXLINE)) hostname pathname
               = Some (newreq, rio')"
  shows "\<exists>c' k. doit origin client c
             = Some ([Cache_find u, Open_clientfd hostname port, Write_server newreq] @
                     fst (stream_loop (server newreq) []) @ [Close_server], c') \<and>
           cache_inv c' \<and>
           entries c' = (u, snd (stream_loop (server newreq) []),
                         int (length (snd (stream_loop (server newreq) [])))) # take k (entries c) \<and>
           live c' = length (heap c) # take k (live c) \<and>
           head c' = Some (length (heap c))"
proof -
  from get_requestD [OF req] obtain m v where
    line: "fst (Rio_readlineb client MAXLINE) \<noteq> []"
      "sscanf3 (fst (Rio_readlineb client MAXLINE)) = (Some m, Some u, v)"
      "strcasecmp_eq m ''GET''"
    by auto
  let ?staged = "snd (stream_loop (server newreq) [])"
  have le: "int (length ?staged) \<le> MAX_OBJECT_SIZE"
    by (rule stream_loop_staged_le) simp
  from cache_insert_inv [OF inv _ le, of ?staged u] obtain c' k where c':
    "cache_insert u ?staged (int (length ?staged)) c = Some c'" "cache_inv c'"
    "entries c' = (u, take (nat (int (length ?staged))) ?staged, int (length ?staged)) # take k (entries c)"
    "live c' = length (heap c) # take k (live c)" "head c' = Some (length (heap c))"
    by auto
  have "doit origin client c
             = Some ([Cache_find u, Open_clientfd hostname port, Write_server newreq] @
                     fst (stream_loop (server newreq) []) @ [Close_server], c')"
    unfolding doit_def Let_def using line miss parse conn hdrs le c'(1) by simp
  with c'(2-) show ?thesis by auto
qed

text \<open>The handler keeps the invariant of the cache, whatever the client and the origin
  send.\<close>

lemma cache_insert_keeps_inv:
  "cache_inv c \<Longrightarrow> cache_insert u B n c = Some c' \<Longrightarrow> cache_inv c'"
  using apply_op_inv [of c "Insert u B n" c'] by simp

lemma doit_keeps_inv:
  assumes "cache_inv c" and "doit origin client c = Some (tr, c')"
  shows "cache_inv c'"
proof -
  have find: "cache_find u c = Some (List.find (\<lambda>a. uri (block_at c a) = u) (live c), c)" for u
    using assms(1) by (rule cache_find_inv)
  from assms show ?thesis
    unfolding doit_def Let_def
    by (auto simp: find
          split: if_splits prod.splits option.splits Option.bind_splits
          dest: cache_insert_keeps_inv)
qed

section \<open>The method gate\<close>

lemma method_ofD:
  "method_of client = Some method \<Longrightarrow>
   fst (Rio_readlineb client MAXLINE) \<noteq> [] \<and>
   (\<exists>ut version. sscanf3 (fst (Rio_readlineb client MAXLINE)) = (Some method, ut, version))"
  unfolding method_of_def Let_def
  by (cases "sscanf3 (fst (Rio_readlineb client MAXLINE))") (auto split: if_splits)

lemmas page_eval = clienterror_def fits_def msg_501_def msg_503_def title_text_def footer_text_def

text \<open>A method other than GET of at most 8146 bytes: the page goes out, starting with the
  status line, and nothing else happens.\<close>

lemma doit_other_method:
  assumes "method_of client = Some method" and "\<not> strcasecmp_eq method ''GET''"
    and "length method \<le> 8146"
  shows "\<exists>page. clienterror method ''501'' ''Not Implemented'' msg_501
             = Some ((''HTTP/1.0 501 Not Implemented'' @ CRLF) # page) \<and>
           doit origin client c
             = Some (map Write_client ((''HTTP/1.0 501 Not Implemented'' @ CRLF) # page), c)"
proof -
  from method_ofD [OF assms(1)] obtain ut v where
    line: "fst (Rio_readlineb client MAXLINE) \<noteq> []"
      "sscanf3 (fst (Rio_readlineb client MAXLINE)) = (Some method, ut, v)"
    by auto
  have "\<exists>page. clienterror method ''501'' ''Not Implemented'' msg_501
             = Some ((''HTTP/1.0 501 Not Implemented'' @ CRLF) # page)"
    using assms(3) by (simp add: page_eval)
  then obtain page where page: "clienterror method ''501'' ''Not Implemented'' msg_501
             = Some ((''HTTP/1.0 501 Not Implemented'' @ CRLF) # page)" ..
  have "doit origin client c
             = Some (map Write_client ((''HTTP/1.0 501 Not Implemented'' @ CRLF) # page), c)"
    unfolding doit_def Let_def using line assms(2) by (simp add: page)
  with page show ?thesis by (intro exI [of _ page] conjI)
qed

text \<open>The same in the words of the claim: what the client receives begins with the
  status line, and the trace has no call on the cache and none on an origin.\<close>

lemma method_gate:
  assumes "method_of client = Some method" and "\<not> strcasecmp_eq method ''GET''"
    and "length method \<le> 8146"
  shows "\<exists>tr rest. doit origin client c = Some (tr, c) \<and>
           client_bytes tr = ''HTTP/1.0 501 Not Implemented'' @ CRLF @ rest \<and>
           \<not> list_ex is_probe tr \<and> \<not> list_ex is_connect tr"
proof -
  from doit_other_method [OF assms, of origin c] obtain page where
    run: "doit origin client c
          = Some (map Write_client ((''HTTP/1.0 501 Not Implemented'' @ CRLF) # page), c)"
    by (elim exE conjE)
  have quiet: "\<not> list_ex is_probe (map Write_client ws) \<and>
               \<not> list_ex is_connect (map Write_client ws)" for ws
    by (induction ws) simp_all
  have "client_bytes (map Write_client ((''HTTP/1.0 501 Not Implemented'' @ CRLF) # page))
        = ''HTTP/1.0 501 Not Implemented'' @ CRLF @ client_bytes (map Write_client page)"
    by simp
  with run quiet [of "(''HTTP/1.0 501 Not Implemented'' @ CRLF) # page"] show ?thesis
    by (intro exI conjI) (assumption | erule conjunct1 | erule conjunct2)+
qed

text \<open>A longer method: the sixth \<open>sprintf\<close> of \<open>clienterror\<close> overflows its array.\<close>

lemma doit_method_overflow:
  assumes "method_of client = Some method" and "\<not> strcasecmp_eq method ''GET''"
    and "length method > 8146"
  shows "doit origin client c = None"
proof -
  from method_ofD [OF assms(1)] obtain ut v where
    line: "fst (Rio_readlineb client MAXLINE) \<noteq> []"
      "sscanf3 (fst (Rio_readlineb client MAXLINE)) = (Some method, ut, v)"
    by auto
  show ?thesis
    unfolding doit_def Let_def using line assms(2,3) by (simp add: page_eval)
qed

lemma readline_replicate_append:
  "c \<noteq> LF \<Longrightarrow> n \<le> k \<Longrightarrow>
   readline k (replicate n c @ s) = (replicate n c @ fst (readline (k - n) s), snd (readline (k - n) s))"
proof (induction n arbitrary: k)
  case 0
  then show ?case by simp
next
  case (Suc n)
  then obtain k' where k': "k = Suc k'" by (cases k) auto
  with Suc show ?case by (simp split: prod.splits)
qed


text \<open>
  Claim C7, at a request whose method does not fit the error page. The request line is
  a method of 8147 bytes \<open>X\<close>, then a uri and a version. The method is not GET, so
  \<open>doit\<close> calls \<open>clienterror\<close> with it as the cause; the sixth \<open>sprintf\<close> there needs
  45 bytes, the method and a NUL, 8193 bytes in all, in an array of \<open>MAXLINE\<close> = 8192:
  the call has no defined result, where the claim says the handler answers and
  terminates. For every method other than GET of at most 8146 bytes the handler does what
  the claim says (lemmas \<open>doit_other_method\<close> and \<open>method_gate\<close> above): it writes the
  page, status line first, and returns without a call on the cache or on an origin.
\<close>

theorem doit_long_method_overflows:
  "method_of (replicate 8147 CHR ''X'' @ '' http://h/ HTTP/1.0'' @ CRLF @ CRLF)
     = Some (replicate 8147 CHR ''X'') \<and>
   \<not> strcasecmp_eq (replicate 8147 CHR ''X'') ''GET'' \<and>
   doit (\<lambda>hostname port. None) (replicate 8147 CHR ''X'' @ '' http://h/ HTTP/1.0'' @ CRLF @ CRLF)
     cache_init = None"
proof -
  let ?client = "replicate 8147 CHR ''X'' @ '' http://h/ HTTP/1.0'' @ CRLF @ CRLF"
  have rl: "Rio_readlineb ?client MAXLINE
            = (replicate 8147 CHR ''X'' @ '' http://h/ HTTP/1.0'' @ CRLF, CRLF)"
    unfolding Rio_readlineb_def
    by (subst readline_replicate_append) (simp_all add: readline_Cons)
  have m: "method_of ?client = Some (replicate 8147 CHR ''X'')"
    unfolding method_of_def rl Let_def
    by (simp add: sscanf3_def scan_s_def cstr_def isspace_def takeWhile_append dropWhile_append)
  have ne: "\<not> strcasecmp_eq (replicate 8147 CHR ''X'') ''GET''"
  proof
    assume "strcasecmp_eq (replicate 8147 CHR ''X'') ''GET''"
    then have "length (map tolower (replicate 8147 CHR ''X'')) = length (map tolower ''GET'')"
      unfolding strcasecmp_eq_def by (rule arg_cong)
    then show False by simp
  qed
  have "doit (\<lambda>hostname port. None) ?client cache_init = None"
    using m ne by (rule doit_method_overflow) simp
  with m ne show ?thesis by (intro conjI)
qed

section \<open>Admission of what was staged\<close>

lemma cache_find_head_entry:
  assumes "cache_inv c" and "entries c = (u, B, n) # rest"
  shows "\<exists>p. cache_find u c = Some (Some p, c) \<and> head c = Some p \<and>
           content (block_at c p) = B \<and> content_size (block_at c p) = n"
proof -
  from assms(2) obtain p ps where live: "live c = p # ps" and e: "entry (block_at c p) = (u, B, n)"
    by (auto simp: entries_def live_blocks_def)
  from assms(1) have "linked c (live c)" by (simp add: cache_inv_def)
  with live have "head c = Some p" by (auto simp: linked_def split: option.splits)
  moreover have "cache_find u c = Some (Some p, c)"
    using assms(1) live e by (simp add: cache_find_inv entry_def)
  ultimately show ?thesis using e by (simp add: entry_def)
qed

lemma Rio_readlineb_replicate:
  "c \<noteq> LF \<Longrightarrow>
   Rio_readlineb (replicate n c) MAXLINE = (replicate (min 8191 n) c, replicate (n - 8191) c)"
proof -
  assume c: "c \<noteq> LF"
  have "readline k (replicate n c) = (replicate (min k n) c, replicate (n - k) c)" for k
  proof (induction k arbitrary: n)
    case 0
    then show ?case by simp
  next
    case (Suc k)
    then show ?case using c by (cases n) simp_all
  qed
  then show ?thesis by (simp add: Rio_readlineb_def)
qed

lemma replicate_append_same: "replicate n x @ replicate m x = replicate (n + m) x"
  by (simp add: replicate_add)

lemma stream_big:
  "snd (stream_loop (replicate 102401 CHR ''a'') []) = replicate 98292 CHR ''a''"
  by (simp add: stream_loop.simps Rio_readlineb_replicate Let_def replicate_append_same)


lemmas line_eval = Rio_readlineb_def readline_Cons sscanf3_def scan_s_def cstr_def isspace_def
  strcasecmp_eq_def strncasecmp_eq_def tolower_def

lemma get_request_example: "get_request (''GET http://h/x HTTP/1.0'' @ CRLF @ CRLF) ''http://h/x''"
  by (simp add: get_request_def line_eval)

lemma build_requesthdrs_example:
  "\<exists>newreq. build_requesthdrs (snd (Rio_readlineb (''GET http://h/x HTTP/1.0'' @ CRLF @ CRLF) MAXLINE))
      ''h'' ''/x'' = Some (newreq, [])"
  by (simp add: build_requesthdrs_def hdr_loop.simps fits_def user_agent_hdr_def line_eval)

text \<open>
  Claim C1, at a response of 102401 bytes, one more than \<open>MAX_OBJECT_SIZE\<close>. The cache
  is empty, the client asks for \<open>http://h/x\<close>, the origin answers 102401 bytes \<open>a\<close>.
  The handler forwards all of them, as the claim says. The claim says that nothing is
  admitted; the handler admits an entry with the first twelve reads, 98292 bytes: the
  staging loop skips what does not fit, so the test \<open>cache_size <= MAX_OBJECT_SIZE\<close>
  before \<open>cache_insert\<close> is always true. The same request again is then answered from
  the cache with those 98292 bytes, and no origin is contacted.
\<close>

theorem oversize_response_is_admitted:
  "\<exists>tr c'.
     doit (\<lambda>hostname port. if hostname = ''h'' \<and> port = 80
                              then Some (\<lambda>request. replicate 102401 CHR ''a'') else None)
       (''GET http://h/x HTTP/1.0'' @ CRLF @ CRLF) cache_init = Some (tr, c') \<and>
     client_bytes tr = replicate 102401 CHR ''a'' \<and>
     entries c' = [(''http://h/x'', replicate 98292 CHR ''a'', 98292)] \<and>
     doit (\<lambda>hostname port. None) (''GET http://h/x HTTP/1.0'' @ CRLF @ CRLF) c'
       = Some ([Cache_find ''http://h/x'', Write_client (replicate 98292 CHR ''a'')], c')"
proof -
  define server where "server = (\<lambda>request::char list. replicate 102401 CHR ''a'')"
  define origin where "origin = (\<lambda>hostname port. if hostname = ''h'' \<and> port = (80::int)
                   then Some server else None)"
  let ?client = "''GET http://h/x HTTP/1.0'' @ CRLF @ CRLF"
  let ?u = "''http://h/x''"
  have miss: "cache_find ?u cache_init = Some (None, cache_init)"
    by (simp add: cache_eval)
  have parse: "parse_uri ?u = Some (''h'', ''/x'', 80)"
    by (simp add: parse_uri_def str_eval)
  have conn: "origin ''h'' 80 = Some server" by (simp add: origin_def)
  from build_requesthdrs_example obtain newreq where
    hdrs: "build_requesthdrs (snd (Rio_readlineb ?client MAXLINE)) ''h'' ''/x'' = Some (newreq, [])" ..
  from doit_miss [of cache_init ?client ?u "''h''" "''/x''" 80 origin server newreq "[]",
      OF cache_init_inv get_request_example miss parse conn hdrs]
  obtain c' k where c': "doit origin ?client cache_init
             = Some ([Cache_find ?u, Open_clientfd ''h'' 80, Write_server newreq] @
                     fst (stream_loop (server newreq) []) @ [Close_server], c')"
    "cache_inv c'"
    "entries c' = (?u, snd (stream_loop (server newreq) []),
                   int (length (snd (stream_loop (server newreq) [])))) #
                  take k (entries cache_init)"
    by (elim exE conjE)
  let ?tr = "[Cache_find ?u, Open_clientfd ''h'' 80, Write_server newreq] @
                     fst (stream_loop (server newreq) []) @ [Close_server]"
  have tail: "client_bytes (ws @ [Close_server]) = client_bytes ws" for ws
    by (induction ws rule: client_bytes.induct) simp_all
  have bytes: "client_bytes ?tr = replicate 102401 CHR ''a''"
    by (simp add: tail stream_loop_bytes server_def)
  have ent: "entries c' = [(?u, replicate 98292 CHR ''a'', 98292)]"
    using c'(3) by (simp add: server_def stream_big entries_cache_init)
  from cache_find_head_entry [OF c'(2) ent] obtain p where
    p: "cache_find ?u c' = Some (Some p, c')" "content (block_at c' p) = replicate 98292 CHR ''a''"
    by (elim exE conjE)
  from doit_hit [OF c'(2) get_request_example p(1), of "\<lambda>hostname port. None"] p(2)
  have again: "doit (\<lambda>hostname port. None) ?client c'
       = Some ([Cache_find ?u, Write_client (replicate 98292 CHR ''a'')], c')"
    by simp
  from c'(1) bytes ent again
  have "\<exists>tr c'. doit origin ?client cache_init = Some (tr, c') \<and>
     client_bytes tr = replicate 102401 CHR ''a'' \<and>
     entries c' = [(?u, replicate 98292 CHR ''a'', 98292)] \<and>
     doit (\<lambda>hostname port. None) ?client c'
       = Some ([Cache_find ?u, Write_client (replicate 98292 CHR ''a'')], c')"
    by (intro exI [of _ ?tr] exI [of _ c'] conjI)
  then show ?thesis unfolding origin_def server_def .
qed

section \<open>An origin that sends nothing\<close>

text \<open>
  Claim C10, as amended. In a state that satisfies the invariant, \<open>cache_insert u B 0\<close>
  links a live entry of length zero at the head, and \<open>cache_find u\<close> right after it
  finds that entry. So a handler that misses on \<open>u\<close>, reaches the origin and reads EOF
  before any byte sends the client nothing and admits an empty entry for \<open>u\<close>. From any
  state in which \<open>cache_find u\<close> finds an entry without content, a GET for \<open>u\<close> is
  answered with zero bytes, with no call on an origin, and leaves the state as it was;
  so later requests for \<open>u\<close> are served that way for as long as the entry is in the
  cache. It does not stay for ever, as the claim has it: later admissions evict it from
  the tail, and the request after that goes to the origin again (the last example below).
\<close>

theorem empty_response_is_admitted:
  assumes inv: "cache_inv c" and req: "get_request client u"
    and miss: "cache_find u c = Some (None, c)"
    and parse: "parse_uri u = Some (hostname, pathname, port)"
    and conn: "origin hostname port = Some server"
    and hdrs: "build_requesthdrs (snd (Rio_readlineb client MAXLINE)) hostname pathname
               = Some (newreq, rio')"
    and eof: "server newreq = []"
  shows "(\<exists>c1 p. cache_insert u B 0 c = Some c1 \<and> head c1 = Some p \<and>
            entry (block_at c1 p) = (u, [], 0) \<and> cache_find u c1 = Some (Some p, c1)) \<and>
         (\<exists>tr c' p. doit origin client c = Some (tr, c') \<and> client_bytes tr = [] \<and>
            cache_inv c' \<and> head c' = Some p \<and> entry (block_at c' p) = (u, [], 0) \<and>
            cache_find u c' = Some (Some p, c')) \<and>
         (\<forall>c2 q origin2 client2.
            cache_inv c2 \<and> cache_find u c2 = Some (Some q, c2) \<and> content (block_at c2 q) = [] \<and>
            get_request client2 u \<longrightarrow>
            doit origin2 client2 c2 = Some ([Cache_find u, Write_client []], c2))"
proof (intro conjI allI impI)
  from cache_insert_inv [OF inv, of 0 B u] obtain c1 k where c1:
    "cache_insert u B 0 c = Some c1" "cache_inv c1"
    "entries c1 = (u, take (nat 0) B, 0) # take k (entries c)"
    by auto
  from c1(3) have "entries c1 = (u, [], 0) # take k (entries c)" by simp
  from cache_find_head_entry [OF c1(2) this] obtain p where
    "cache_find u c1 = Some (Some p, c1)" "head c1 = Some p"
    "content (block_at c1 p) = []" "content_size (block_at c1 p) = 0"
    by auto
  moreover from this(1) c1(2) have "uri (block_at c1 p) = u"
    by (auto simp: cache_find_inv find_Some_iff)
  ultimately show "\<exists>c1 p. cache_insert u B 0 c = Some c1 \<and> head c1 = Some p \<and>
            entry (block_at c1 p) = (u, [], 0) \<and> cache_find u c1 = Some (Some p, c1)"
    using c1(1) by (auto simp: entry_def)
next
  from doit_miss [of c client u hostname pathname port origin server newreq rio',
      OF inv req miss parse conn hdrs] obtain c' k where c':
    "doit origin client c
       = Some ([Cache_find u, Open_clientfd hostname port, Write_server newreq] @
               fst (stream_loop (server newreq) []) @ [Close_server], c')"
    "cache_inv c'"
    "entries c' = (u, snd (stream_loop (server newreq) []),
                   int (length (snd (stream_loop (server newreq) [])))) # take k (entries c)"
    by (elim exE conjE)
  from c'(3) have ent: "entries c' = (u, [], 0) # take k (entries c)"
    by (simp add: eof stream_loop_Nil)
  from cache_find_head_entry [OF c'(2) ent] obtain p where p:
    "cache_find u c' = Some (Some p, c')" "head c' = Some p"
    "content (block_at c' p) = []" "content_size (block_at c' p) = 0"
    by auto
  from p(1) c'(2) have "uri (block_at c' p) = u"
    by (auto simp: cache_find_inv find_Some_iff)
  with c' p show "\<exists>tr c' p. doit origin client c = Some (tr, c') \<and> client_bytes tr = [] \<and>
            cache_inv c' \<and> head c' = Some p \<and> entry (block_at c' p) = (u, [], 0) \<and>
            cache_find u c' = Some (Some p, c')"
    by (auto simp: entry_def eof stream_loop_Nil)
next
  fix c2 q origin2 client2
  assume "cache_inv c2 \<and> cache_find u c2 = Some (Some q, c2) \<and> content (block_at c2 q) = [] \<and>
          get_request client2 u"
  then show "doit origin2 client2 c2 = Some ([Cache_find u, Write_client []], c2)"
    using doit_hit [of c2 client2 u q origin2] by simp
qed


lemma first_request_example:
  "\<exists>tr. doit silent_origin (''GET http://h/x HTTP/1.0'' @ CRLF @ CRLF) cache_init
     = Some (tr,
         \<lparr>heap = [Some \<lparr>uri = ''http://h/x'', content = [], content_size = 0, prev = None,
                         next = None\<rparr>],
          head = Some 0, tail = Some 0, current_size = 0, mutex = 1, w = 1, readcnt = 0\<rparr>) \<and>
     client_bytes tr = []"
proof -
  let ?client = "''GET http://h/x HTTP/1.0'' @ CRLF @ CRLF"
  let ?u = "''http://h/x''"
  let ?c1 = "\<lparr>heap = [Some \<lparr>uri = ''http://h/x'', content = [], content_size = 0, prev = None,
                         next = None\<rparr>],
          head = Some 0, tail = Some 0, current_size = 0, mutex = 1, w = 1, readcnt = 0\<rparr>"
  have miss: "cache_find ?u cache_init = Some (None, cache_init)"
    by (simp add: cache_eval)
  have parse: "parse_uri ?u = Some (''h'', ''/x'', 80)"
    by (simp add: parse_uri_def str_eval)
  have conn: "silent_origin ''h'' 80 = Some (\<lambda>request. [])" by (simp add: silent_origin_def)
  from build_requesthdrs_example obtain newreq where
    hdrs: "build_requesthdrs (snd (Rio_readlineb ?client MAXLINE)) ''h'' ''/x'' = Some (newreq, [])" ..
  have line: "fst (Rio_readlineb ?client MAXLINE) \<noteq> []"
    "sscanf3 (fst (Rio_readlineb ?client MAXLINE)) = (Some ''GET'', Some ?u, Some ''HTTP/1.0'')"
    by (simp_all add: line_eval)
  have get: "strcasecmp_eq ''GET'' ''GET''" by (simp add: strcasecmp_eq_def)
  have ins: "cache_insert ?u [] 0 cache_init = Some ?c1" by (simp add: cache_eval)
  have "doit silent_origin ?client cache_init
        = Some ([Cache_find ?u, Open_clientfd ''h'' 80, Write_server newreq, Close_server], ?c1)"
    unfolding doit_def Let_def
    using line get miss parse conn hdrs ins by (simp add: stream_loop_Nil)
  then show ?thesis by simp
qed


theorem empty_response_is_admitted_witness:
  "cache_inv cache_init \<and>
   get_request (''GET http://h/x HTTP/1.0'' @ CRLF @ CRLF) ''http://h/x'' \<and>
   cache_find ''http://h/x'' cache_init = Some (None, cache_init) \<and>
   parse_uri ''http://h/x'' = Some (''h'', ''/x'', 80) \<and>
   silent_origin ''h'' 80 \<noteq> None \<and>
   build_requesthdrs (snd (Rio_readlineb (''GET http://h/x HTTP/1.0'' @ CRLF @ CRLF) MAXLINE))
     ''h'' ''/x'' \<noteq> None \<and>
   the (silent_origin ''h'' 80)
     (fst (the (build_requesthdrs
        (snd (Rio_readlineb (''GET http://h/x HTTP/1.0'' @ CRLF @ CRLF) MAXLINE)) ''h'' ''/x'')))
     = [] \<and>
   doit silent_origin (''GET http://h/x HTTP/1.0'' @ CRLF @ CRLF) cache_init \<noteq> None \<and>
   client_bytes (fst (the (doit silent_origin (''GET http://h/x HTTP/1.0'' @ CRLF @ CRLF)
     cache_init))) = [] \<and>
   entries (snd (the (doit silent_origin (''GET http://h/x HTTP/1.0'' @ CRLF @ CRLF)
     cache_init))) = [(''http://h/x'', [], 0)] \<and>
   doit silent_origin (''GET http://h/x HTTP/1.0'' @ CRLF @ CRLF)
     (snd (the (doit silent_origin (''GET http://h/x HTTP/1.0'' @ CRLF @ CRLF) cache_init)))
   = Some ([Cache_find ''http://h/x'', Write_client []],
       snd (the (doit silent_origin (''GET http://h/x HTTP/1.0'' @ CRLF @ CRLF) cache_init)))"
proof -
  define client where "client = ''GET http://h/x HTTP/1.0'' @ CRLF @ CRLF"
  define u where "u = ''http://h/x''"
  have req: "get_request client u"
    unfolding client_def u_def by (rule get_request_example)
  have miss: "cache_find u cache_init = Some (None, cache_init)"
    unfolding u_def by (simp add: cache_eval)
  have parse: "parse_uri u = Some (''h'', ''/x'', 80)"
    unfolding u_def by (simp add: parse_uri_def str_eval)
  have conn: "silent_origin ''h'' 80 = Some (\<lambda>request. [])" by (simp add: silent_origin_def)
  from build_requesthdrs_example obtain newreq where
    hdrs: "build_requesthdrs (snd (Rio_readlineb client MAXLINE)) ''h'' ''/x'' = Some (newreq, [])"
    unfolding client_def ..
  have eof: "(\<lambda>request::char list. []::char list) newreq = []" by simp
  from empty_response_is_admitted [of cache_init client u "''h''" "''/x''" 80 silent_origin
      "\<lambda>request. []" newreq "[]" "[]", OF cache_init_inv req miss parse conn hdrs eof]
  obtain tr c' p where c': "doit silent_origin client cache_init = Some (tr, c')"
      "client_bytes tr = []" "cache_inv c'" "head c' = Some p"
      "entry (block_at c' p) = (u, [], 0)" "cache_find u c' = Some (Some p, c')"
    and later: "\<forall>c2 q origin2 client2.
        cache_inv c2 \<and> cache_find u c2 = Some (Some q, c2) \<and> content (block_at c2 q) = [] \<and>
        get_request client2 u \<longrightarrow>
        doit origin2 client2 c2 = Some ([Cache_find u, Write_client []], c2)"
    by (elim exE conjE)
  from c'(5) have "content (block_at c' p) = []" by (simp add: entry_def)
  with later c'(3,6) req
  have again: "doit silent_origin client c' = Some ([Cache_find u, Write_client []], c')"
    by (elim allE [of _ c'] allE [of _ p] allE [of _ silent_origin] allE [of _ client]) simp
  from first_request_example c'(1) have "entries c' = [(u, [], 0)]"
    unfolding client_def u_def
    by (auto simp: entries_def live_blocks_def live_def block_at_def entry_def deref_def)
  with c'(1,2) again cache_init_inv req miss parse conn hdrs
  have "cache_inv cache_init \<and> get_request client u \<and>
     cache_find u cache_init = Some (None, cache_init) \<and>
     parse_uri u = Some (''h'', ''/x'', 80) \<and>
     silent_origin ''h'' 80 \<noteq> None \<and>
     build_requesthdrs (snd (Rio_readlineb client MAXLINE)) ''h'' ''/x'' \<noteq> None \<and>
     the (silent_origin ''h'' 80)
       (fst (the (build_requesthdrs (snd (Rio_readlineb client MAXLINE)) ''h'' ''/x''))) = [] \<and>
     doit silent_origin client cache_init \<noteq> None \<and>
     client_bytes (fst (the (doit silent_origin client cache_init))) = [] \<and>
     entries (snd (the (doit silent_origin client cache_init))) = [(u, [], 0)] \<and>
     doit silent_origin client (snd (the (doit silent_origin client cache_init)))
       = Some ([Cache_find u, Write_client []],
           snd (the (doit silent_origin client cache_init)))"
    by simp
  then show ?thesis unfolding client_def u_def .
qed

lemma eleven_objects_example:
  "\<exists>c2. run_ops eleven_objects
          \<lparr>heap = [Some \<lparr>uri = ''http://h/x'', content = [], content_size = 0, prev = None,
                          next = None\<rparr>],
           head = Some 0, tail = Some 0, current_size = 0, mutex = 1, w = 1, readcnt = 0\<rparr>
        = Some c2 \<and>
        map uri (live_blocks c2) = [''k'', ''j'', ''i'', ''h'', ''g'', ''f'', ''e'', ''d'', ''c'', ''b'']"
  by (simp add: eleven_objects_def cache_eval live_blocks_def live_def block_at_def)

theorem empty_entry_is_evicted_counterexample:
  "doit silent_origin (''GET http://h/x HTTP/1.0'' @ CRLF @ CRLF) cache_init \<noteq> None \<and>
   doit silent_origin (''GET http://h/x HTTP/1.0'' @ CRLF @ CRLF)
     (snd (the (doit silent_origin (''GET http://h/x HTTP/1.0'' @ CRLF @ CRLF) cache_init)))
   = Some ([Cache_find ''http://h/x'', Write_client []],
       snd (the (doit silent_origin (''GET http://h/x HTTP/1.0'' @ CRLF @ CRLF) cache_init))) \<and>
   run_ops eleven_objects
     (snd (the (doit silent_origin (''GET http://h/x HTTP/1.0'' @ CRLF @ CRLF) cache_init)))
     \<noteq> None \<and>
   doit silent_origin (''GET http://h/x HTTP/1.0'' @ CRLF @ CRLF)
     (the (run_ops eleven_objects
        (snd (the (doit silent_origin (''GET http://h/x HTTP/1.0'' @ CRLF @ CRLF) cache_init)))))
     \<noteq> None \<and>
   list_ex is_connect
     (fst (the (doit silent_origin (''GET http://h/x HTTP/1.0'' @ CRLF @ CRLF)
        (the (run_ops eleven_objects
           (snd (the (doit silent_origin (''GET http://h/x HTTP/1.0'' @ CRLF @ CRLF)
              cache_init))))))))"
proof -
  define client where "client = ''GET http://h/x HTTP/1.0'' @ CRLF @ CRLF"
  define u where "u = ''http://h/x''"
  define c1 where "c1 = \<lparr>heap = [Some \<lparr>uri = ''http://h/x'', content = [], content_size = 0,
      prev = None, next = None\<rparr>],
      head = Some 0, tail = Some 0, current_size = 0, mutex = 1, w = 1, readcnt = 0\<rparr>"
  have req: "get_request client u"
    unfolding client_def u_def by (rule get_request_example)
  from first_request_example obtain tr1 where
    first: "doit silent_origin client cache_init = Some (tr1, c1)"
    unfolding client_def c1_def by (elim exE conjE)
  have inv1: "cache_inv c1" unfolding c1_def by (simp add: inv_eval)
  have hit: "cache_find u c1 = Some (Some 0, c1)"
    unfolding c1_def u_def by (simp add: cache_eval)
  have "content (block_at c1 0) = []" unfolding c1_def by (simp add: block_at_def deref_def)
  with doit_hit [OF inv1 req hit, of silent_origin]
  have second: "doit silent_origin client c1 = Some ([Cache_find u, Write_client []], c1)"
    by simp
  from eleven_objects_example obtain c2 where c2: "run_ops eleven_objects c1 = Some c2"
    "map uri (live_blocks c2) = [''k'', ''j'', ''i'', ''h'', ''g'', ''f'', ''e'', ''d'', ''c'', ''b'']"
    unfolding c1_def by (elim exE conjE)
  have inv2: "cache_inv c2" using inv1 c2(1) by (rule run_ops_inv)
  have "u \<notin> set (map uri (live_blocks c2))"
    unfolding c2(2) u_def by simp
  then have miss: "cache_find u c2 = Some (None, c2)"
    using inv2 by (simp add: cache_find_miss_iff)
  have parse: "parse_uri u = Some (''h'', ''/x'', 80)"
    unfolding u_def by (simp add: parse_uri_def str_eval)
  have conn: "silent_origin ''h'' 80 = Some (\<lambda>request. [])" by (simp add: silent_origin_def)
  from build_requesthdrs_example obtain newreq where
    hdrs: "build_requesthdrs (snd (Rio_readlineb client MAXLINE)) ''h'' ''/x'' = Some (newreq, [])"
    unfolding client_def ..
  from doit_miss [of c2 client u "''h''" "''/x''" 80 silent_origin "\<lambda>request. []" newreq "[]",
      OF inv2 req miss parse conn hdrs]
  obtain c3 where third: "doit silent_origin client c2
      = Some ([Cache_find u, Open_clientfd ''h'' 80, Write_server newreq] @
              fst (stream_loop [] []) @ [Close_server], c3)"
    by (elim exE conjE)
  have "doit silent_origin client cache_init \<noteq> None \<and>
        doit silent_origin client (snd (the (doit silent_origin client cache_init)))
          = Some ([Cache_find u, Write_client []],
              snd (the (doit silent_origin client cache_init))) \<and>
        run_ops eleven_objects (snd (the (doit silent_origin client cache_init))) \<noteq> None \<and>
        doit silent_origin client
          (the (run_ops eleven_objects (snd (the (doit silent_origin client cache_init)))))
          \<noteq> None \<and>
        list_ex is_connect
          (fst (the (doit silent_origin client
             (the (run_ops eleven_objects (snd (the (doit silent_origin client cache_init))))))))"
    unfolding first option.sel snd_conv second c2(1) third fst_conv by simp
  then show ?thesis unfolding client_def u_def .
qed

end
